theory Spec2Isabelle
  imports Complex_Main
begin

section \<open>Media descriptors and slot heights\<close>

text \<open>
  The grid receives media descriptors as JSON objects. Every field is optional: the top-level
  \<open>width\<close>, \<open>height\<close> and \<open>aspect_ratio\<close> are numbers, \<open>metadata.dimensions.width\<close> and
  \<open>.height\<close> are numbers or strings (the scraper writes strings such as \<open>"1920"\<close>,
  \<open>"320px"\<close> or \<open>"unknown"\<close>). A field is \<open>undefined\<close> when absent and may be \<open>null\<close>.
  Numbers are modelled as reals: no rounding, and no infinities; \<open>NaN\<close> appears only as the
  result of \<open>parseInt\<close> or of a division and is the value \<open>None\<close> of an optional number.
  Reading a property of \<open>undefined\<close> or \<open>null\<close> throws a \<open>TypeError\<close>.
\<close>

datatype exn = TypeError

datatype 'a obj = OUndefined | ONull | OObj 'a

datatype numeric = NUndefined | NNull | NNum real

datatype dim = DUndefined | DNull | DNum real | DStr "nat list"

record dimensions_obj =
  dim_width :: dim
  dim_height :: dim

record metadata_obj =
  dimensions :: "dimensions_obj obj"

record media =
  filename :: string
  metadata :: "metadata_obj obj"
  media_width :: numeric
  media_height :: numeric
  aspect_ratio :: numeric

text \<open>\<open>v.field\<close>: a property read, which throws on \<open>undefined\<close> and \<open>null\<close>.\<close>

definition get_field :: "'a obj \<Rightarrow> ('a \<Rightarrow> 'b) \<Rightarrow> exn + 'b" where
  "get_field v f = (case v of OObj a \<Rightarrow> Inr (f a) | _ \<Rightarrow> Inl TypeError)"

definition bindE :: "exn + 'a \<Rightarrow> ('a \<Rightarrow> exn + 'b) \<Rightarrow> exn + 'b" where
  "bindE m f = (case m of Inl e \<Rightarrow> Inl e | Inr v \<Rightarrow> f v)"

text \<open>\<open>a && b\<close> as a condition: \<open>b\<close> is evaluated only when \<open>a\<close> is truthy.\<close>

definition and_then :: "exn + bool \<Rightarrow> exn + bool \<Rightarrow> exn + bool" where
  "and_then a b = bindE a (\<lambda>t. if t then b else Inr False)"

fun truthy_obj :: "'a obj \<Rightarrow> bool" where
  "truthy_obj (OObj _) = True"
| "truthy_obj _ = False"

fun truthy_dim :: "dim \<Rightarrow> bool" where
  "truthy_dim (DNum r) = (r \<noteq> 0)"
| "truthy_dim (DStr s) = (s \<noteq> [])"
| "truthy_dim _ = False"

fun truthy_numeric :: "numeric \<Rightarrow> bool" where
  "truthy_numeric (NNum r) = (r \<noteq> 0)"
| "truthy_numeric _ = False"

text \<open>
  A string is its sequence of UTF-16 code units; for a character below U+0100 the code unit
  is the character code.
\<close>

definition utf16 :: "string \<Rightarrow> nat list" where
  "utf16 s = map of_char s"

text \<open>
  \<open>parseInt(x)\<close> without a radix, as the language defines it. The argument is converted to a
  string. Leading white space is skipped: the white space and line terminator code points of
  the language, which are TAB, LF, VT, FF, CR, SPACE, U+00A0, U+1680, U+2000 to U+200A,
  U+2028, U+2029, U+202F, U+205F, U+3000 and U+FEFF. A sign is read, a \<open>0x\<close> or \<open>0X\<close> prefix
  selects radix 16, and the longest prefix of digits of the radix is the value; no digit gives
  \<open>NaN\<close>.
\<close>

definition is_whitespace :: "nat \<Rightarrow> bool" where
  "is_whitespace n =
     (n \<in> set [9, 10, 11, 12, 13, 32, 160, 5760, 8232, 8233, 8239, 8287, 12288, 65279]
      \<or> (8192 \<le> n \<and> n \<le> 8202))"

definition digit_value :: "nat \<Rightarrow> nat \<Rightarrow> nat option" where
  "digit_value radix n =
     (let v = (if 48 \<le> n \<and> n \<le> 57 then Some (n - 48)
               else if 97 \<le> n \<and> n \<le> 122 then Some (n - 87)
               else if 65 \<le> n \<and> n \<le> 90 then Some (n - 55)
               else None)
      in case v of Some d \<Rightarrow> (if d < radix then Some d else None) | None \<Rightarrow> None)"

fun digits_value :: "nat \<Rightarrow> nat \<Rightarrow> nat list \<Rightarrow> nat" where
  "digits_value radix acc [] = acc"
| "digits_value radix acc (c # cs) =
     (case digit_value radix c of
        Some d \<Rightarrow> digits_value radix (acc * radix + d) cs
      | None \<Rightarrow> acc)"

definition parse_digits :: "nat \<Rightarrow> nat list \<Rightarrow> nat option" where
  "parse_digits radix s =
     (case s of
        [] \<Rightarrow> None
      | c # cs \<Rightarrow> (case digit_value radix c of
                     None \<Rightarrow> None
                   | Some d \<Rightarrow> Some (digits_value radix 0 s)))"

definition parseInt_string :: "nat list \<Rightarrow> int option" where
  "parseInt_string str =
     (let s = dropWhile is_whitespace str;
          neg = (case s of c # _ \<Rightarrow> c = 45 | [] \<Rightarrow> False);
          s1 = (case s of c # cs \<Rightarrow> (if c = 43 \<or> c = 45 then cs else s) | [] \<Rightarrow> s);
          hex = (case s1 of a # b # _ \<Rightarrow> a = 48 \<and> (b = 120 \<or> b = 88) | _ \<Rightarrow> False);
          z = (if hex then parse_digits 16 (drop 2 s1) else parse_digits 10 s1)
      in case z of
           None \<Rightarrow> None
         | Some n \<Rightarrow> Some (if neg then - int n else int n))"

text \<open>
  The string of a number. A number \<open>x\<close> with \<open>1/10^6 \<le> |x| < 10^21\<close> is written in decimal
  notation (\<open>1920\<close>, \<open>1920.5\<close>, \<open>0.000001\<close>), and \<open>parseInt\<close> reads its integer part. Any
  other number except 0 is written with an exponent, one digit before the point (\<open>5e-7\<close>,
  \<open>1.5e+21\<close>), and \<open>parseInt\<close> reads that digit, the first significant digit of \<open>|x|\<close>:
  \<open>scale_up\<close> and \<open>scale_down\<close> move the decimal point behind it. A negative number
  starts with the sign.
\<close>

lemma scale_up_measure:
  assumes "0 < a" and "a < (1::real)"
  shows "\<lceil>1 / (a * 10)\<rceil> < \<lceil>1 / a\<rceil>"
proof -
  have x: "1 < 1 / a"
    using assms by simp
  then have "2 \<le> \<lceil>1 / a\<rceil>"
    by linarith
  then have c: "(2::real) \<le> of_int \<lceil>1 / a\<rceil>"
    by (metis of_int_le_iff of_int_numeral)
  have "1 / (a * 10) = (1 / a) / 10"
    by simp
  also have "\<dots> \<le> of_int \<lceil>1 / a\<rceil> / 10"
    by (simp add: divide_right_mono)
  also have "\<dots> \<le> of_int \<lceil>1 / a\<rceil> - 1"
    using c by linarith
  finally have "1 / (a * 10) \<le> of_int (\<lceil>1 / a\<rceil> - 1)"
    by simp
  then have "\<lceil>1 / (a * 10)\<rceil> \<le> \<lceil>1 / a\<rceil> - 1"
    by (simp only: ceiling_le_iff)
  then show ?thesis by simp
qed

lemma scale_down_measure:
  assumes "10 \<le> (a::real)"
  shows "\<lfloor>a / 10\<rfloor> < \<lfloor>a\<rfloor>"
proof -
  have "10 \<le> \<lfloor>a\<rfloor>"
    using assms by linarith
  then have f: "(10::real) \<le> of_int \<lfloor>a\<rfloor>"
    by (metis of_int_le_iff of_int_numeral)
  have "a < of_int \<lfloor>a\<rfloor> + 1"
    by linarith
  then have "a / 10 < of_int \<lfloor>a\<rfloor>"
    using f by linarith
  then show ?thesis
    by (simp only: floor_less_iff)
qed

function scale_up :: "real \<Rightarrow> real" where
  "scale_up a = (if 0 < a \<and> a < 1 then scale_up (a * 10) else a)"
  by pat_completeness auto
termination
  by (relation "measure (\<lambda>a. nat \<lceil>1 / a\<rceil>)") (simp_all add: scale_up_measure)

function scale_down :: "real \<Rightarrow> real" where
  "scale_down a = (if 10 \<le> a then scale_down (a / 10) else a)"
  by pat_completeness auto
termination
  by (relation "measure (\<lambda>a. nat \<lfloor>a\<rfloor>)") (simp_all add: scale_down_measure)

declare scale_up.simps [simp del] scale_down.simps [simp del]

definition leading_digit :: "real \<Rightarrow> int" where
  "leading_digit a = \<lfloor>scale_down (scale_up a)\<rfloor>"

definition parseInt_number :: "real \<Rightarrow> int" where
  "parseInt_number x =
     (if x = 0 then 0
      else
        (let a = \<bar>x\<bar>;
             n = (if 1 / 10 ^ 6 \<le> a \<and> a < 10 ^ 21 then \<lfloor>a\<rfloor> else leading_digit a)
         in if x < 0 then - n else n))"

fun parseInt :: "dim \<Rightarrow> int option" where
  "parseInt (DStr s) = parseInt_string s"
| "parseInt (DNum x) = Some (parseInt_number x)"
| "parseInt DUndefined = None"
| "parseInt DNull = None"

text \<open>\<open>x > 0\<close> (false on \<open>NaN\<close>, \<open>undefined\<close> and \<open>null\<close>) and \<open>x / y\<close> on numbers.\<close>

definition int_gt0 :: "int option \<Rightarrow> bool" where
  "int_gt0 n = (case n of Some k \<Rightarrow> 0 < k | None \<Rightarrow> False)"

fun numeric_gt0 :: "numeric \<Rightarrow> bool" where
  "numeric_gt0 (NNum r) = (0 < r)"
| "numeric_gt0 _ = False"

fun to_number :: "numeric \<Rightarrow> real option" where
  "to_number (NNum r) = Some r"
| "to_number NNull = Some 0"
| "to_number NUndefined = None"

definition num_div :: "real option \<Rightarrow> real option \<Rightarrow> real option" where
  "num_div a b =
     (case (a, b) of
        (Some x, Some y) \<Rightarrow> (if y = 0 then None else Some (x / y))
      | _ \<Rightarrow> None)"

definition int_number :: "int option \<Rightarrow> real option" where
  "int_number n = map_option real_of_int n"


subsection \<open>The height of a slot\<close>

text \<open>
  \<open>getItemHeight\<close> (VideoMasonry.jsx), \<open>calcHeight\<close> (ImageItem.jsx) and
  \<open>calculateDimensions\<close> (VideoItem.jsx) each spell out the same chain of three attempts
  before their own fallback; the chain is \<open>height_from_item\<close>. A step yields \<open>None\<close> when
  its condition fails and the code falls through to the next step.
\<close>

definition truthyE :: "('a \<Rightarrow> bool) \<Rightarrow> exn + 'a \<Rightarrow> exn + bool" where
  "truthyE f v = bindE v (\<lambda>x. Inr (f x))"

definition get_metadata :: "media obj \<Rightarrow> exn + metadata_obj obj" where
  "get_metadata item = get_field item metadata"

definition get_dimensions :: "media obj \<Rightarrow> exn + dimensions_obj obj" where
  "get_dimensions item = bindE (get_metadata item) (\<lambda>m. get_field m dimensions)"

definition get_dim_width :: "media obj \<Rightarrow> exn + dim" where
  "get_dim_width item = bindE (get_dimensions item) (\<lambda>d. get_field d dim_width)"

definition get_dim_height :: "media obj \<Rightarrow> exn + dim" where
  "get_dim_height item = bindE (get_dimensions item) (\<lambda>d. get_field d dim_height)"

definition height_from_metadata :: "media obj \<Rightarrow> real \<Rightarrow> exn + real option option" where
  "height_from_metadata item width =
     bindE (and_then (and_then (and_then
              (truthyE truthy_obj (get_metadata item))
              (truthyE truthy_obj (get_dimensions item)))
              (truthyE truthy_dim (get_dim_width item)))
              (truthyE truthy_dim (get_dim_height item)))
       (\<lambda>c. if c
            then bindE (get_dim_width item) (\<lambda>mw. bindE (get_dim_height item) (\<lambda>mh.
                   let w = parseInt mw; h = parseInt mh
                   in Inr (if int_gt0 w \<and> int_gt0 h
                           then Some (num_div (Some width) (num_div (int_number w) (int_number h)))
                           else None)))
            else Inr None)"

definition height_from_top_level :: "media obj \<Rightarrow> real \<Rightarrow> exn + real option option" where
  "height_from_top_level item width =
     bindE (and_then (and_then (and_then
              (truthyE truthy_numeric (get_field item media_width))
              (truthyE truthy_numeric (get_field item media_height)))
              (truthyE numeric_gt0 (get_field item media_width)))
              (truthyE numeric_gt0 (get_field item media_height)))
       (\<lambda>c. if c
            then bindE (get_field item media_width) (\<lambda>w. bindE (get_field item media_height) (\<lambda>h.
                   Inr (Some (num_div (Some width) (num_div (to_number w) (to_number h))))))
            else Inr None)"

definition height_from_aspect_ratio :: "media obj \<Rightarrow> real \<Rightarrow> exn + real option option" where
  "height_from_aspect_ratio item width =
     bindE (and_then
              (truthyE truthy_numeric (get_field item aspect_ratio))
              (truthyE numeric_gt0 (get_field item aspect_ratio)))
       (\<lambda>c. if c
            then bindE (get_field item aspect_ratio) (\<lambda>r.
                   Inr (Some (num_div (Some width) (to_number r))))
            else Inr None)"

definition or_else ::
  "exn + 'a option \<Rightarrow> exn + 'a option \<Rightarrow> exn + 'a option" where
  "or_else a b = bindE a (\<lambda>r. case r of Some h \<Rightarrow> Inr (Some h) | None \<Rightarrow> b)"

definition height_from_item :: "media obj \<Rightarrow> real \<Rightarrow> exn + real option option" where
  "height_from_item item width =
     or_else (height_from_metadata item width)
       (or_else (height_from_top_level item width) (height_from_aspect_ratio item width))"

definition or_fallback :: "exn + real option option \<Rightarrow> real option \<Rightarrow> exn + real option" where
  "or_fallback a d = bindE a (\<lambda>r. case r of Some h \<Rightarrow> Inr h | None \<Rightarrow> Inr d)"

datatype item_data =
  Placeholder
  | ImageItemData "media obj" nat
  | VideoItemData "media obj" nat

definition getItemHeight :: "item_data option \<Rightarrow> real \<Rightarrow> exn + real option" where
  "getItemHeight itemData width =
     (case itemData of
        None \<Rightarrow> Inr (Some 100)
      | Some Placeholder \<Rightarrow> Inr (Some 100)
      | Some (ImageItemData img i) \<Rightarrow>
          or_fallback (height_from_item img width)
            (num_div (Some width) (num_div (Some 4) (Some 3)))
      | Some (VideoItemData video i) \<Rightarrow>
          or_fallback (if truthy_obj video then height_from_item video width else Inr None)
            (num_div (Some width) (num_div (Some 16) (Some 9))))"

definition calcHeight :: "media obj \<Rightarrow> real \<Rightarrow> exn + real option" where
  "calcHeight img width =
     or_fallback (height_from_item img width)
       (num_div (Some width) (num_div (Some 4) (Some 3)))"

definition calculateDimensions :: "media obj \<Rightarrow> real \<Rightarrow> exn + real \<times> real option" where
  "calculateDimensions video providedWidth =
     bindE (or_fallback (height_from_item video providedWidth)
              (num_div (Some providedWidth) (num_div (Some 16) (Some 9))))
       (\<lambda>h. Inr (providedWidth, h))"

subsection \<open>The aspect ratio as the specification words it\<close>

datatype media_kind = Video | Image

definition metadata_pixels :: "media \<Rightarrow> (int \<times> int) option" where
  "metadata_pixels m =
     (case metadata m of
        OObj md \<Rightarrow>
          (case dimensions md of
             OObj d \<Rightarrow>
               (case (parseInt (dim_width d), parseInt (dim_height d)) of
                  (Some w, Some h) \<Rightarrow> (if 0 < w \<and> 0 < h then Some (w, h) else None)
                | _ \<Rightarrow> None)
           | _ \<Rightarrow> None)
      | _ \<Rightarrow> None)"

definition top_level_pixels :: "media \<Rightarrow> (real \<times> real) option" where
  "top_level_pixels m =
     (case (media_width m, media_height m) of
        (NNum w, NNum h) \<Rightarrow> (if 0 < w \<and> 0 < h then Some (w, h) else None)
      | _ \<Rightarrow> None)"

definition provided_ratio :: "media \<Rightarrow> real option" where
  "provided_ratio m =
     (case aspect_ratio m of
        NNum r \<Rightarrow> (if 0 < r then Some r else None)
      | _ \<Rightarrow> None)"

fun fallback_ratio :: "media_kind \<Rightarrow> real" where
  "fallback_ratio Video = 16 / 9"
| "fallback_ratio Image = 4 / 3"

definition aspectRatio :: "media_kind \<Rightarrow> media \<Rightarrow> real" where
  "aspectRatio kind m =
     (case metadata_pixels m of
        Some (w, h) \<Rightarrow> real_of_int w / real_of_int h
      | None \<Rightarrow>
          (case top_level_pixels m of
             Some (w, h) \<Rightarrow> w / h
           | None \<Rightarrow>
               (case provided_ratio m of
                  Some r \<Rightarrow> r
                | None \<Rightarrow> fallback_ratio kind)))"

subsection \<open>What \<open>parseInt\<close> returns\<close>

lemma parseInt_plain:
  assumes "1 / 10 ^ 6 \<le> x" and "x < 10 ^ 21"
  shows "parseInt (DNum x) = Some \<lfloor>x\<rfloor>"
proof -
  have "0 < x"
    using assms(1) by (rule less_le_trans [rotated]) simp
  then show ?thesis
    using assms by (simp add: parseInt_number_def)
qed

lemma parseInt_integer:
  assumes "\<bar>n\<bar> < 10 ^ 21"
  shows "parseInt (DNum (of_int n)) = Some n"
proof (cases "n = 0")
  case True
  then show ?thesis by (simp add: parseInt_number_def)
next
  case False
  have a: "\<bar>real_of_int n\<bar> = of_int \<bar>n\<bar>"
    by simp
  have "1 \<le> \<bar>n\<bar>"
    using False by simp
  then have "(1::real) \<le> of_int \<bar>n\<bar>"
    by (metis of_int_1 of_int_le_iff)
  moreover have "(1::real) / 10 ^ 6 \<le> 1"
    by simp
  ultimately have lo: "(1::real) / 10 ^ 6 \<le> of_int \<bar>n\<bar>"
    by (rule order_trans [rotated])
  have hi: "real_of_int \<bar>n\<bar> < 10 ^ 21"
    using assms by (metis of_int_less_iff of_int_numeral of_int_power)
  show ?thesis
    using False lo hi unfolding parseInt.simps parseInt_number_def Let_def a
    by (simp del: of_int_abs) linarith
qed

lemma scale_up_range:
  assumes "0 < a"
  shows "1 \<le> scale_up a \<and> (a < 1 \<longrightarrow> scale_up a < 10) \<and> (\<exists>k. scale_up a = a * 10 ^ k)"
  using assms
proof (induction a rule: scale_up.induct)
  case (1 a)
  show ?case
  proof (cases "a < 1")
    case True
    with 1 have ih: "1 \<le> scale_up (a * 10)" "a * 10 < 1 \<longrightarrow> scale_up (a * 10) < 10"
      "\<exists>k. scale_up (a * 10) = a * 10 * 10 ^ k"
      by simp_all
    have s: "scale_up a = scale_up (a * 10)"
      using True 1(2) by (subst scale_up.simps) simp
    have "scale_up (a * 10) < 10"
    proof (cases "a * 10 < 1")
      case True
      with ih(2) show ?thesis by simp
    next
      case False
      then have "scale_up (a * 10) = a * 10"
        by (subst scale_up.simps) simp
      with \<open>a < 1\<close> show ?thesis by simp
    qed
    moreover from ih(3) obtain k where "scale_up (a * 10) = a * 10 * 10 ^ k" ..
    then have "scale_up (a * 10) = a * 10 ^ Suc k"
      by simp
    then have "\<exists>k. scale_up (a * 10) = a * 10 ^ k" ..
    ultimately show ?thesis
      using ih(1) True by (simp add: s)
  next
    case False
    then have s: "scale_up a = a"
      by (subst scale_up.simps) simp
    have "a = a * 10 ^ 0" by simp
    then have "\<exists>k. a = a * 10 ^ k" ..
    with False show ?thesis by (simp add: s)
  qed
qed

lemma scale_down_range:
  assumes "1 \<le> a"
  shows "1 \<le> scale_down a \<and> scale_down a < 10 \<and> (\<exists>k. scale_down a * 10 ^ k = a)"
  using assms
proof (induction a rule: scale_down.induct)
  case (1 a)
  show ?case
  proof (cases "10 \<le> a")
    case True
    with 1 have ih: "1 \<le> scale_down (a / 10)" "scale_down (a / 10) < 10"
      "\<exists>k. scale_down (a / 10) * 10 ^ k = a / 10"
      by simp_all
    have s: "scale_down a = scale_down (a / 10)"
      using True by (subst scale_down.simps) simp
    from ih(3) obtain k where "scale_down (a / 10) * 10 ^ k = a / 10" ..
    then have "scale_down (a / 10) * 10 ^ Suc k = a"
      by simp
    then have "\<exists>k. scale_down (a / 10) * 10 ^ k = a" ..
    with ih(1,2) show ?thesis by (simp add: s)
  next
    case False
    then have s: "scale_down a = a"
      by (subst scale_down.simps) simp
    have "a * 10 ^ 0 = a" by simp
    then have "\<exists>k. a * 10 ^ k = a" ..
    with False 1(2) show ?thesis by (simp add: s)
  qed
qed

text \<open>
  The digit read from a number written with an exponent is between 1 and 9, whatever the
  size of the number: a width of \<open>5e-7\<close> is parsed as 5.
\<close>

lemma leading_digit_range:
  assumes "0 < a"
  shows "1 \<le> leading_digit a" "leading_digit a \<le> 9"
proof -
  have "1 \<le> scale_up a"
    using scale_up_range [OF assms] by simp
  then have "1 \<le> scale_down (scale_up a)" "scale_down (scale_up a) < 10"
    using scale_down_range by simp_all
  then show "1 \<le> leading_digit a" "leading_digit a \<le> 9"
    unfolding leading_digit_def by linarith+
qed

lemma leading_digit_sound:
  assumes "0 < a" and "a < 1 \<or> 10 \<le> a"
  shows "\<exists>k::int. of_int (leading_digit a) * 10 powi k \<le> a
           \<and> a < (of_int (leading_digit a) + 1) * 10 powi k"
proof (cases "a < 1")
  case True
  from scale_up_range [OF assms(1)] True obtain k
    where s: "1 \<le> scale_up a" "scale_up a < 10" "scale_up a = a * 10 ^ k"
    by auto
  have d: "scale_down (scale_up a) = scale_up a"
    using s(2) by (subst scale_down.simps) simp
  have p: "(10::real) powi (- int k) = 1 / 10 ^ k"
    by (simp add: power_int_minus divide_simps)
  have "of_int \<lfloor>a * 10 ^ k\<rfloor> \<le> a * 10 ^ k" "a * 10 ^ k < of_int \<lfloor>a * 10 ^ k\<rfloor> + 1"
    by linarith+
  then have "of_int \<lfloor>a * 10 ^ k\<rfloor> * (1 / 10 ^ k) \<le> a"
    "a < (of_int \<lfloor>a * 10 ^ k\<rfloor> + 1) * (1 / 10 ^ k)"
    by (simp_all add: divide_simps)
  moreover have "leading_digit a = \<lfloor>a * 10 ^ k\<rfloor>"
  proof -
    have "leading_digit a = \<lfloor>scale_up a\<rfloor>"
      by (simp only: leading_digit_def d)
    then show ?thesis
      by (simp only: s(3))
  qed
  ultimately have "of_int (leading_digit a) * 10 powi (- int k) \<le> a
           \<and> a < (of_int (leading_digit a) + 1) * 10 powi (- int k)"
    by (simp only: p)
  then show ?thesis ..
next
  case False
  with assms(2) have big: "10 \<le> a" by simp
  have u: "scale_up a = a"
    using big by (subst scale_up.simps) simp
  from scale_down_range [of a] big obtain k
    where s: "scale_down a * 10 ^ k = a"
    by auto
  have "of_int \<lfloor>scale_down a\<rfloor> \<le> scale_down a" "scale_down a < of_int \<lfloor>scale_down a\<rfloor> + 1"
    by linarith+
  then have "of_int \<lfloor>scale_down a\<rfloor> * 10 ^ k \<le> scale_down a * 10 ^ k"
    "scale_down a * 10 ^ k < (of_int \<lfloor>scale_down a\<rfloor> + 1) * 10 ^ k"
    by simp_all
  moreover have "leading_digit a = \<lfloor>scale_down a\<rfloor>"
    unfolding leading_digit_def u ..
  ultimately have "of_int (leading_digit a) * 10 powi (int k) \<le> a
           \<and> a < (of_int (leading_digit a) + 1) * 10 powi (int k)"
    by (simp only: s power_int_of_nat)
  then show ?thesis ..
qed

lemma parseInt_exponent:
  assumes "0 < x" and "x < 1 / 10 ^ 6 \<or> 10 ^ 21 \<le> x"
  shows "\<exists>n. parseInt (DNum x) = Some n \<and> 1 \<le> n \<and> n \<le> 9"
  using assms leading_digit_range [OF assms(1)]
  by (auto simp: parseInt_number_def)

text \<open>A string of decimal digits is parsed as the number it writes.\<close>

lemma digits_value_decimal:
  assumes "\<forall>d\<in>set ds. d < 10"
  shows "digits_value 10 acc (map (\<lambda>d. 48 + d) ds) = foldl (\<lambda>n d. n * 10 + d) acc ds"
  using assms by (induction ds arbitrary: acc) (simp_all add: digit_value_def)

lemma parseInt_decimal:
  assumes "\<forall>d\<in>set ds. d < 10" and "ds \<noteq> []"
  shows "parseInt (DStr (map (\<lambda>d. 48 + d) ds)) = Some (int (foldl (\<lambda>n d. n * 10 + d) 0 ds))"
proof -
  from assms(2) obtain d rest where ds: "ds = d # rest" by (cases ds) auto
  with assms(1) have d: "d < 10" and rest: "\<forall>d\<in>set rest. d < 10" by simp_all
  have w: "\<not> is_whitespace (48 + d)"
    using d by (auto simp: is_whitespace_def)
  have v: "digit_value 10 (48 + d) = Some d"
    using d by (simp add: digit_value_def)
  have h: "\<not> (case map (\<lambda>d. 48 + d) rest of [] \<Rightarrow> False | b # _ \<Rightarrow> b = 120 \<or> b = 88)"
    using rest by (cases rest) auto
  have "parseInt_string (map (\<lambda>d. 48 + d) ds)
      = Some (int (digits_value 10 0 (map (\<lambda>d. 48 + d) ds)))"
    using w v d h
    by (cases rest) (auto simp: ds parseInt_string_def parse_digits_def Let_def)
  then show ?thesis
    by (simp add: digits_value_decimal [OF assms(1)])
qed

lemma parseInt_number_nonzero: "0 < parseInt_number x \<Longrightarrow> x \<noteq> 0"
  by (auto simp: parseInt_number_def)

lemma truthy_dim_parseInt: "int_gt0 (parseInt d) \<Longrightarrow> truthy_dim d"
  apply (cases d)
  apply (auto simp: int_gt0_def parseInt_string_def parse_digits_def parseInt_number_def
      split: if_splits)
  done

lemma height_from_metadata_spec:
  "height_from_metadata (OObj m) width =
     Inr (case metadata_pixels m of
            Some (w, h) \<Rightarrow> Some (Some (width / (real_of_int w / real_of_int h)))
          | None \<Rightarrow> None)"
proof (cases "metadata m")
  case (OObj md)
  show ?thesis
  proof (cases "dimensions md")
    case d: (OObj d)
    show ?thesis
    proof (cases "int_gt0 (parseInt (dim_width d)) \<and> int_gt0 (parseInt (dim_height d))")
      case True
      then have "truthy_dim (dim_width d)" "truthy_dim (dim_height d)"
        by (simp_all add: truthy_dim_parseInt)
      with True OObj d show ?thesis
        by (auto simp: height_from_metadata_def metadata_pixels_def get_metadata_def
            get_dimensions_def get_dim_width_def get_dim_height_def get_field_def bindE_def
            and_then_def truthyE_def int_gt0_def num_div_def int_number_def Let_def
            split: option.splits)
    next
      case False
      with OObj d show ?thesis
        by (auto simp: height_from_metadata_def metadata_pixels_def get_metadata_def
            get_dimensions_def get_dim_width_def get_dim_height_def get_field_def bindE_def
            and_then_def truthyE_def int_gt0_def num_div_def int_number_def Let_def
            split: option.splits)
    qed
  qed (simp_all add: OObj height_from_metadata_def metadata_pixels_def get_metadata_def
        get_dimensions_def get_dim_width_def get_dim_height_def get_field_def bindE_def
        and_then_def truthyE_def)
qed (simp_all add: height_from_metadata_def metadata_pixels_def get_metadata_def
      get_dimensions_def get_dim_width_def get_dim_height_def get_field_def bindE_def
      and_then_def truthyE_def)

lemma height_from_top_level_spec:
  "height_from_top_level (OObj m) width =
     Inr (case top_level_pixels m of
            Some (w, h) \<Rightarrow> Some (Some (width / (w / h)))
          | None \<Rightarrow> None)"
  by (cases "media_width m"; cases "media_height m")
     (auto simp: height_from_top_level_def top_level_pixels_def get_field_def bindE_def
        and_then_def truthyE_def num_div_def)

lemma height_from_aspect_ratio_spec:
  "height_from_aspect_ratio (OObj m) width =
     Inr (case provided_ratio m of
            Some r \<Rightarrow> Some (Some (width / r))
          | None \<Rightarrow> None)"
  by (cases "aspect_ratio m")
     (auto simp: height_from_aspect_ratio_def provided_ratio_def get_field_def bindE_def
        and_then_def truthyE_def num_div_def)

lemma height_from_item_spec:
  "or_fallback (height_from_item (OObj m) width) (num_div (Some width) (Some (fallback_ratio kind)))
     = Inr (Some (width / aspectRatio kind m))"
  by (cases kind)
     (auto simp: height_from_item_def or_else_def or_fallback_def bindE_def aspectRatio_def
        height_from_metadata_spec height_from_top_level_spec height_from_aspect_ratio_spec
        num_div_def split: option.splits)


text \<open>The ratio is positive, so no division of the chain is a division by zero.\<close>

lemma aspectRatio_positive: "0 < aspectRatio kind m"
  by (cases kind)
     (auto simp: aspectRatio_def metadata_pixels_def top_level_pixels_def provided_ratio_def
        split: option.splits obj.splits numeric.splits if_splits)

text \<open>
  C1. For every media item (a descriptor object \<open>m\<close> with any combination of present,
  absent, \<open>null\<close>, numeric or string fields) and every column width, the height computed by
  \<open>getItemHeight\<close>, by \<open>ImageItem.calcHeight\<close> and by \<open>VideoItem.calculateDimensions\<close> is
  \<open>width / aspectRatio\<close>, where \<open>aspectRatio\<close> is resolved in the order: pixel dimensions of
  \<open>metadata.dimensions\<close> parsed as integers (by \<open>parseInt\<close>, the integer parser of the
  language, which all three functions call) and both positive; top-level \<open>width\<close> and
  \<open>height\<close> both positive; the provided \<open>aspect_ratio\<close> when positive; \<open>16/9\<close> for a video
  and \<open>4/3\<close> for an image. The result is a value (\<open>Inr\<close>), never a thrown \<open>TypeError\<close>, and a
  number, never \<open>NaN\<close>.
\<close>

theorem slot_height_by_priority:
  "getItemHeight (Some (ImageItemData (OObj m) i)) width = Inr (Some (width / aspectRatio Image m))
   \<and> getItemHeight (Some (VideoItemData (OObj m) i)) width
       = Inr (Some (width / aspectRatio Video m))
   \<and> calcHeight (OObj m) width = Inr (Some (width / aspectRatio Image m))
   \<and> calculateDimensions (OObj m) width = Inr (width, Some (width / aspectRatio Video m))"
  using height_from_item_spec [of m width Image] height_from_item_spec [of m width Video]
  by (simp add: getItemHeight_def calcHeight_def calculateDimensions_def num_div_def bindE_def)

text \<open>
  Six descriptors: none of the fields; all three sources at once (the metadata wins);
  unusable metadata strings with top-level dimensions; only a usable \<open>aspect_ratio\<close>; a
  metadata width of \<open>5e-7\<close>, which \<open>parseInt\<close> reads as 5, so that the metadata is used and not
  the \<open>aspect_ratio\<close>; a metadata width that starts with a no-break space.
\<close>

definition media_none :: media where
  "media_none =
     \<lparr>filename = ''a.mp4'', metadata = OUndefined, media_width = NUndefined,
      media_height = NUndefined, aspect_ratio = NUndefined\<rparr>"

definition media_full :: media where
  "media_full =
     \<lparr>filename = ''b.mp4'',
      metadata = OObj \<lparr>dimensions = OObj \<lparr>dim_width = DStr (utf16 ''1920''), dim_height = DStr (utf16 ''1080'')\<rparr>\<rparr>,
      media_width = NNum 100, media_height = NNum 100, aspect_ratio = NNum 2\<rparr>"

definition media_unknown :: media where
  "media_unknown =
     \<lparr>filename = ''c.jpg'',
      metadata = OObj \<lparr>dimensions = OObj \<lparr>dim_width = DStr (utf16 ''unknown''), dim_height = DStr (utf16 ''unknown'')\<rparr>\<rparr>,
      media_width = NNum 640, media_height = NNum 480, aspect_ratio = NNum 2\<rparr>"

definition media_ratio :: media where
  "media_ratio =
     \<lparr>filename = ''d.jpg'', metadata = ONull, media_width = NNum 0,
      media_height = NNum 480, aspect_ratio = NNum 2\<rparr>"

definition media_tiny :: media where
  "media_tiny =
     \<lparr>filename = ''e.jpg'',
      metadata = OObj \<lparr>dimensions = OObj \<lparr>dim_width = DNum (5 / 10 ^ 7), dim_height = DNum 1\<rparr>\<rparr>,
      media_width = NUndefined, media_height = NUndefined, aspect_ratio = NNum 2\<rparr>"

definition media_nbsp :: media where
  "media_nbsp =
     \<lparr>filename = ''f.jpg'',
      metadata = OObj \<lparr>dimensions = OObj \<lparr>dim_width = DStr (160 # utf16 ''640''),
                                           dim_height = DStr (utf16 ''320'')\<rparr>\<rparr>,
      media_width = NUndefined, media_height = NUndefined, aspect_ratio = NUndefined\<rparr>"

lemma parseInt_examples:
  "parseInt_string (utf16 ''1920'') = Some 1920" "parseInt_string (utf16 ''1080'') = Some 1080"
  "parseInt_string (utf16 ''unknown'') = None"
  "parseInt_string (utf16 ''  320px'') = Some 320"
  "parseInt_string (utf16 ''-12.5'') = Some (- 12)"
  "parseInt_string (utf16 ''0x10'') = Some 16"
  "parseInt_string (160 # utf16 ''640'') = Some 640"
  "parseInt_string (utf16 ''320'') = Some 320"
  "parseInt_string (12288 # 65279 # utf16 ''640'') = Some 640"
  by (simp_all add: parseInt_string_def parse_digits_def digit_value_def is_whitespace_def
      utf16_def)

lemma parseInt_number_examples:
  "parseInt_number 1920 = 1920" "parseInt_number (3841 / 2) = 1920"
  "parseInt_number (- (3841 / 2)) = - 1920" "parseInt_number (1 / 2) = 0"
  "parseInt_number (1 / 10 ^ 6) = 0" "parseInt_number (5 / 10 ^ 7) = 5"
  "parseInt_number (15 * 10 ^ 20) = 1" "parseInt_number (- (5 / 10 ^ 7)) = - 5"
  by (simp_all add: parseInt_number_def leading_digit_def scale_up.simps scale_down.simps)

lemma aspectRatio_examples:
  "aspectRatio Video media_full = 16 / 9"
  "aspectRatio Image media_unknown = 4 / 3"
  "aspectRatio Image media_ratio = 2"
  "aspectRatio Video media_none = 16 / 9"
  "aspectRatio Image media_none = 4 / 3"
  "aspectRatio Image media_tiny = 5"
  "aspectRatio Image media_nbsp = 2"
  by (simp_all add: aspectRatio_def metadata_pixels_def top_level_pixels_def provided_ratio_def
      media_full_def media_unknown_def media_ratio_def media_none_def media_tiny_def
      media_nbsp_def parseInt_examples parseInt_number_def leading_digit_def scale_up.simps
      scale_down.simps)

theorem slot_height_by_priority_witness:
  "getItemHeight (Some (VideoItemData (OObj media_full) 0)) 320 = Inr (Some 180)
   \<and> getItemHeight (Some (ImageItemData (OObj media_unknown) 1)) 320 = Inr (Some 240)
   \<and> calcHeight (OObj media_ratio) 320 = Inr (Some 160)
   \<and> calcHeight (OObj media_none) 320 = Inr (Some 240)
   \<and> calculateDimensions (OObj media_none) 320 = Inr (320, Some 180)
   \<and> calcHeight (OObj media_tiny) 320 = Inr (Some 64)
   \<and> getItemHeight (Some (ImageItemData (OObj media_nbsp) 2)) 320 = Inr (Some 160)"
  using slot_height_by_priority [of media_full 0 320]
    slot_height_by_priority [of media_unknown 1 320]
    slot_height_by_priority [of media_ratio 0 320]
    slot_height_by_priority [of media_none 0 320]
    slot_height_by_priority [of media_tiny 0 320]
    slot_height_by_priority [of media_nbsp 2 320]
  by (simp add: aspectRatio_examples)

text \<open>
  Outside the claim: an item wrapper without its descriptor. The video branch guards with
  \<open>itemData.video\<close> and falls back to \<open>16/9\<close>; the image branch reads \<open>image.metadata\<close>
  unguarded and throws. \<open>itemsData\<close> builds the wrappers from the elements of the lists, so
  this needs an \<open>undefined\<close> or \<open>null\<close> element in the list of images.
\<close>

lemma getItemHeight_missing_image:
  "getItemHeight (Some (ImageItemData OUndefined i)) width = Inl TypeError"
  "getItemHeight (Some (VideoItemData OUndefined i)) width = Inr (Some (width / (16 / 9)))"
  "getItemHeight None width = Inr (Some 100)"
  "getItemHeight (Some Placeholder) width = Inr (Some 100)"
  by (simp_all add: getItemHeight_def height_from_item_def height_from_metadata_def
      get_metadata_def get_field_def bindE_def and_then_def truthyE_def or_else_def
      or_fallback_def num_div_def)

section \<open>VideoMasonry: effective width and what is rendered\<close>

text \<open>
  The component measures its container into \<open>containerDimensions\<close> (initially \<open>0 \<times> 0\<close>) and
  hands \<open>effectiveWidth\<close> to the positioner. \<open>window_innerWidth\<close> is \<open>None\<close> where
  \<open>typeof window\<close> is \<open>'undefined'\<close>. The props \<open>videos\<close> and \<open>images\<close> are arrays, whose entries
  can be \<open>undefined\<close> or \<open>null\<close>, and \<open>settings\<close> is an object. All hooks run before the
  component returns, among them
  the computation of \<open>averageAspectRatio\<close>, which reads every entry of the list and can throw.
  What the component then returns is one of: the message for an empty list, the "measuring
  container dimensions" notice, or the masonry elements laid out for a positioner of the
  effective width, the column width \<open>settings.gridSize\<close>, the item height estimate
  \<open>settings.gridSize / averageAspectRatio\<close> and the items.
\<close>

datatype display_mode = Videos | Images | Mixed

record masonry_props =
  videos :: "media obj list"
  images :: "media obj list"
  mode :: display_mode
  highlightModeEnabled :: bool
  totalVideosCount :: nat
  totalImagesCount :: nat
  gridSize :: real

record container_dimensions =
  cd_width :: real
  cd_height :: real

definition effectiveWidth :: "real \<Rightarrow> real option \<Rightarrow> bool \<Rightarrow> real" where
  "effectiveWidth containerWidth window_innerWidth highlight =
     (if 0 < containerWidth then containerWidth
      else
        (let baseWidth = (case window_innerWidth of Some w \<Rightarrow> w | None \<Rightarrow> 1200);
             availableWidth = (if highlight then baseWidth * 0.7 else baseWidth)
         in availableWidth))"

fun merge_mixed :: "nat \<Rightarrow> media obj list \<Rightarrow> media obj list \<Rightarrow> item_data list" where
  "merge_mixed n [] [] = []"
| "merge_mixed n (v # vs) [] = VideoItemData v n # merge_mixed (Suc n) vs []"
| "merge_mixed n [] (i # is) = ImageItemData i n # merge_mixed (Suc n) [] is"
| "merge_mixed n (v # vs) (i # is) =
     VideoItemData v n # ImageItemData i (Suc n) # merge_mixed (Suc (Suc n)) vs is"

definition itemsData :: "masonry_props \<Rightarrow> item_data list" where
  "itemsData p =
     (case mode p of
        Images \<Rightarrow> map (\<lambda>(img, index). ImageItemData img index) (zip (images p) [0..<length (images p)])
      | Mixed \<Rightarrow> merge_mixed 0 (videos p) (images p)
      | Videos \<Rightarrow> map (\<lambda>(video, index). VideoItemData video index) (zip (videos p) [0..<length (videos p)]))"

definition safeItems :: "masonry_props \<Rightarrow> item_data list" where
  "safeItems p = (if 0 < length (itemsData p) then itemsData p else [Placeholder])"

definition isEmptyForMode :: "masonry_props \<Rightarrow> bool" where
  "isEmptyForMode p =
     ((mode p = Videos \<and> length (videos p) = 0)
      \<or> (mode p = Images \<and> length (images p) = 0)
      \<or> (mode p = Mixed \<and> length (itemsData p) = 0))"

definition empty_message :: "masonry_props \<Rightarrow> string" where
  "empty_message p =
     (let noVideosLoaded = (totalVideosCount p = 0);
          noImagesLoaded = (totalImagesCount p = 0);
          noAnyMediaLoaded = (noVideosLoaded \<and> noImagesLoaded)
      in case mode p of
           Videos \<Rightarrow> (if noVideosLoaded then ''No videos loaded. Please start the media server.''
                       else ''No videos match the selected tags.'')
         | Images \<Rightarrow> (if noImagesLoaded then ''No images loaded. Please start the media server.''
                       else ''No images match the selected tags.'')
         | Mixed \<Rightarrow> (if noAnyMediaLoaded then ''No media loaded. Please start the media server.''
                      else ''No media match the selected tags.''))"

text \<open>
  \<open>averageAspectRatio\<close>. Its first loop adds up, over the entries of the list for the mode, the
  ratio of each entry that has one, with the chain of conditions of the height functions; it
  reads \<open>video.metadata\<close> of each entry without a guard. The sum and the count start at 0. The
  second loop and the logging read the entries with \<open>?.\<close> only, change nothing that is returned
  and cannot throw; they are left out.
\<close>

definition num_add :: "real option \<Rightarrow> real option \<Rightarrow> real option" where
  "num_add a b = (case (a, b) of (Some x, Some y) \<Rightarrow> Some (x + y) | _ \<Rightarrow> None)"

definition ratio_from_metadata :: "media obj \<Rightarrow> exn + real option option" where
  "ratio_from_metadata video =
     bindE (and_then (and_then (and_then
              (truthyE truthy_obj (get_metadata video))
              (truthyE truthy_obj (get_dimensions video)))
              (truthyE truthy_dim (get_dim_width video)))
              (truthyE truthy_dim (get_dim_height video)))
       (\<lambda>c. if c
            then bindE (get_dim_width video) (\<lambda>mw. bindE (get_dim_height video) (\<lambda>mh.
                   let metaWidth = parseInt mw; metaHeight = parseInt mh
                   in Inr (if int_gt0 metaWidth \<and> int_gt0 metaHeight
                           then Some (num_div (int_number metaWidth) (int_number metaHeight))
                           else None)))
            else Inr None)"

definition ratio_from_top_level :: "media obj \<Rightarrow> exn + real option option" where
  "ratio_from_top_level video =
     bindE (and_then (and_then (and_then
              (truthyE truthy_numeric (get_field video media_width))
              (truthyE truthy_numeric (get_field video media_height)))
              (truthyE numeric_gt0 (get_field video media_width)))
              (truthyE numeric_gt0 (get_field video media_height)))
       (\<lambda>c. if c
            then bindE (get_field video media_width) (\<lambda>w. bindE (get_field video media_height) (\<lambda>h.
                   Inr (Some (num_div (to_number w) (to_number h)))))
            else Inr None)"

definition ratio_from_aspect_ratio :: "media obj \<Rightarrow> exn + real option option" where
  "ratio_from_aspect_ratio video =
     bindE (and_then
              (truthyE truthy_numeric (get_field video aspect_ratio))
              (truthyE numeric_gt0 (get_field video aspect_ratio)))
       (\<lambda>c. if c
            then bindE (get_field video aspect_ratio) (\<lambda>r. Inr (Some (to_number r)))
            else Inr None)"

definition entry_ratio :: "media obj \<Rightarrow> exn + real option option" where
  "entry_ratio video =
     or_else (ratio_from_metadata video)
       (or_else (ratio_from_top_level video) (ratio_from_aspect_ratio video))"

fun sum_ratios :: "media obj list \<Rightarrow> real option \<times> nat \<Rightarrow> exn + real option \<times> nat" where
  "sum_ratios [] acc = Inr acc"
| "sum_ratios (video # rest) (totalAspectRatio, validAspectRatios) =
     bindE (entry_ratio video)
       (\<lambda>r. case r of
               Some ratio \<Rightarrow> sum_ratios rest (num_add totalAspectRatio ratio, Suc validAspectRatios)
             | None \<Rightarrow> sum_ratios rest (totalAspectRatio, validAspectRatios))"

definition mode_list :: "masonry_props \<Rightarrow> media obj list" where
  "mode_list p =
     (case mode p of
        Images \<Rightarrow> images p
      | Mixed \<Rightarrow> videos p @ images p
      | Videos \<Rightarrow> videos p)"

definition averageAspectRatio :: "masonry_props \<Rightarrow> exn + real option" where
  "averageAspectRatio p =
     (let list = mode_list p
      in if length list = 0 then Inr (Some (16 / 9))
         else
           bindE (sum_ratios list (Some 0, 0))
             (\<lambda>(totalAspectRatio, validAspectRatios).
                Inr (if 0 < validAspectRatios
                     then num_div totalAspectRatio (Some (real validAspectRatios))
                     else Some (16 / 9))))"

datatype rendered =
  EmptyMessage string
  | MeasuringContainer real real
  | MasonryGrid real real "real option" "item_data list"

definition VideoMasonry ::
  "masonry_props \<Rightarrow> container_dimensions \<Rightarrow> real option \<Rightarrow> exn + rendered" where
  "VideoMasonry p containerDimensions window_innerWidth =
     (let w = effectiveWidth (cd_width containerDimensions) window_innerWidth
                (highlightModeEnabled p)
      in bindE (averageAspectRatio p)
           (\<lambda>avg.
              Inr (if isEmptyForMode p then EmptyMessage (empty_message p)
                   else if w = 0 then MeasuringContainer w (cd_height containerDimensions)
                   else MasonryGrid w (gridSize p) (num_div (Some (gridSize p)) avg)
                          (safeItems p))))"

subsection \<open>The average ratio\<close>

text \<open>The ratio of an entry that is a descriptor, in the words of the height chain.\<close>

definition resolved_ratio :: "media \<Rightarrow> real option" where
  "resolved_ratio m =
     (case metadata_pixels m of
        Some (w, h) \<Rightarrow> Some (real_of_int w / real_of_int h)
      | None \<Rightarrow>
          (case top_level_pixels m of
             Some (w, h) \<Rightarrow> Some (w / h)
           | None \<Rightarrow> provided_ratio m))"

definition entries_defined :: "masonry_props \<Rightarrow> bool" where
  "entries_defined p = list_all truthy_obj (mode_list p)"

lemma ratio_from_metadata_spec:
  "ratio_from_metadata (OObj m) =
     Inr (case metadata_pixels m of
            Some (w, h) \<Rightarrow> Some (Some (real_of_int w / real_of_int h))
          | None \<Rightarrow> None)"
proof (cases "metadata m")
  case (OObj md)
  show ?thesis
  proof (cases "dimensions md")
    case d: (OObj d)
    show ?thesis
    proof (cases "int_gt0 (parseInt (dim_width d)) \<and> int_gt0 (parseInt (dim_height d))")
      case True
      then have "truthy_dim (dim_width d)" "truthy_dim (dim_height d)"
        by (simp_all add: truthy_dim_parseInt)
      with True OObj d show ?thesis
        by (auto simp: ratio_from_metadata_def metadata_pixels_def get_metadata_def
            get_dimensions_def get_dim_width_def get_dim_height_def get_field_def bindE_def
            and_then_def truthyE_def int_gt0_def num_div_def int_number_def Let_def
            split: option.splits)
    next
      case False
      with OObj d show ?thesis
        by (auto simp: ratio_from_metadata_def metadata_pixels_def get_metadata_def
            get_dimensions_def get_dim_width_def get_dim_height_def get_field_def bindE_def
            and_then_def truthyE_def int_gt0_def num_div_def int_number_def Let_def
            split: option.splits)
    qed
  qed (simp_all add: OObj ratio_from_metadata_def metadata_pixels_def get_metadata_def
        get_dimensions_def get_dim_width_def get_dim_height_def get_field_def bindE_def
        and_then_def truthyE_def)
qed (simp_all add: ratio_from_metadata_def metadata_pixels_def get_metadata_def
      get_dimensions_def get_dim_width_def get_dim_height_def get_field_def bindE_def
      and_then_def truthyE_def)

lemma ratio_from_top_level_spec:
  "ratio_from_top_level (OObj m) =
     Inr (case top_level_pixels m of
            Some (w, h) \<Rightarrow> Some (Some (w / h))
          | None \<Rightarrow> None)"
  by (cases "media_width m"; cases "media_height m")
     (auto simp: ratio_from_top_level_def top_level_pixels_def get_field_def bindE_def
        and_then_def truthyE_def num_div_def)

lemma ratio_from_aspect_ratio_spec:
  "ratio_from_aspect_ratio (OObj m) =
     Inr (case provided_ratio m of Some r \<Rightarrow> Some (Some r) | None \<Rightarrow> None)"
  by (cases "aspect_ratio m")
     (auto simp: ratio_from_aspect_ratio_def provided_ratio_def get_field_def bindE_def
        and_then_def truthyE_def)

lemma entry_ratio_descriptor:
  "entry_ratio (OObj m) = Inr (map_option Some (resolved_ratio m))"
  by (auto simp: entry_ratio_def or_else_def bindE_def resolved_ratio_def
      ratio_from_metadata_spec ratio_from_top_level_spec ratio_from_aspect_ratio_spec
      split: option.splits)

lemma entry_ratio_missing:
  "entry_ratio OUndefined = Inl TypeError" "entry_ratio ONull = Inl TypeError"
  by (simp_all add: entry_ratio_def or_else_def ratio_from_metadata_def get_metadata_def
      get_field_def bindE_def and_then_def truthyE_def)

lemma resolved_ratio_positive: "resolved_ratio m = Some r \<Longrightarrow> 0 < r"
  by (auto simp: resolved_ratio_def metadata_pixels_def top_level_pixels_def provided_ratio_def
      split: option.splits obj.splits numeric.splits if_splits)

text \<open>
  Over descriptors the loop neither throws nor produces \<open>NaN\<close>, and the sum is positive as
  soon as one ratio was counted.
\<close>

lemma sum_ratios_descriptors:
  assumes "list_all truthy_obj list" and "0 \<le> t" and "0 < n \<longrightarrow> 0 < t"
  shows "\<exists>t' n'. sum_ratios list (Some t, n) = Inr (Some t', n') \<and> 0 \<le> t'
                \<and> (0 < n' \<longrightarrow> 0 < t')"
  using assms
proof (induction list arbitrary: t n)
  case Nil
  then show ?case by simp
next
  case (Cons video rest)
  from Cons.prems(1) obtain m where v: "video = OObj m" and rest: "list_all truthy_obj rest"
    by (cases video) simp_all
  show ?case
  proof (cases "resolved_ratio m")
    case None
    then have "sum_ratios (video # rest) (Some t, n) = sum_ratios rest (Some t, n)"
      by (simp add: v entry_ratio_descriptor bindE_def)
    with Cons.IH [OF rest Cons.prems(2,3)] show ?thesis by simp
  next
    case (Some r)
    then have r: "0 < r" by (rule resolved_ratio_positive)
    have "sum_ratios (video # rest) (Some t, n) = sum_ratios rest (Some (t + r), Suc n)"
      using Some by (simp add: v entry_ratio_descriptor bindE_def num_add_def)
    moreover have "0 \<le> t + r" "0 < Suc n \<longrightarrow> 0 < t + r"
      using r Cons.prems(2) by simp_all
    ultimately show ?thesis
      using Cons.IH [OF rest, of "t + r" "Suc n"] by simp
  qed
qed

lemma sum_ratios_missing:
  assumes "\<not> list_all truthy_obj list"
  shows "sum_ratios list acc = Inl TypeError"
  using assms
proof (induction list arbitrary: acc)
  case Nil
  then show ?case by simp
next
  case (Cons video rest)
  obtain t n where acc: "acc = (t, n)" by (cases acc)
  show ?case
  proof (cases video)
    case (OObj m)
    with Cons.prems have "\<not> list_all truthy_obj rest" by simp
    then have "sum_ratios rest a = Inl TypeError" for a
      by (rule Cons.IH)
    then show ?thesis
      by (simp add: acc OObj entry_ratio_descriptor bindE_def split: option.splits)
  qed (simp_all add: acc entry_ratio_missing bindE_def)
qed

lemma averageAspectRatio_descriptors:
  assumes "entries_defined p"
  shows "\<exists>a. averageAspectRatio p = Inr (Some a) \<and> 0 < a"
proof (cases "mode_list p = []")
  case True
  then have "averageAspectRatio p = Inr (Some (16 / 9))"
    by (simp add: averageAspectRatio_def)
  moreover have "(0::real) < 16 / 9" by simp
  ultimately show ?thesis by blast
next
  case False
  from assms have "list_all truthy_obj (mode_list p)"
    by (simp add: entries_defined_def)
  then obtain t n where s: "sum_ratios (mode_list p) (Some 0, 0) = Inr (Some t, n)"
    and t: "0 < n \<longrightarrow> 0 < t"
    using sum_ratios_descriptors [of "mode_list p" 0 0] by auto
  show ?thesis
  proof (cases "0 < n")
    case True
    with t have "0 < t / real n" by simp
    moreover have "averageAspectRatio p = Inr (Some (t / real n))"
      using True False s by (simp add: averageAspectRatio_def bindE_def num_div_def)
    ultimately show ?thesis by blast
  next
    case n0: False
    with False s have "averageAspectRatio p = Inr (Some (16 / 9))"
      by (simp add: averageAspectRatio_def bindE_def)
    moreover have "(0::real) < 16 / 9" by simp
    ultimately show ?thesis by blast
  qed
qed

lemma averageAspectRatio_missing:
  assumes "\<not> entries_defined p"
  shows "averageAspectRatio p = Inl TypeError"
proof -
  from assms have m: "\<not> list_all truthy_obj (mode_list p)"
    by (simp add: entries_defined_def)
  then have "mode_list p \<noteq> []" by auto
  with sum_ratios_missing [OF m] show ?thesis
    by (simp add: averageAspectRatio_def bindE_def)
qed

lemma merge_mixed_empty: "merge_mixed n vs is = [] \<longleftrightarrow> vs = [] \<and> is = []"
  by (cases vs; cases "is") simp_all

lemma empty_mode_list: "isEmptyForMode p \<longleftrightarrow> mode_list p = []"
  by (cases "mode p")
    (auto simp: isEmptyForMode_def mode_list_def itemsData_def merge_mixed_empty)

text \<open>
  C6, as stated, fails: with one video in the list and a container that reports width 0,
  the component renders the masonry grid at the width of the window (1200 here, and also
  when there is no window), not the notice.
\<close>

definition one_video :: masonry_props where
  "one_video =
     \<lparr>videos = [OObj media_full], images = [], mode = Videos, highlightModeEnabled = False,
      totalVideosCount = 1, totalImagesCount = 0, gridSize = 320\<rparr>"

lemma one_video_average: "averageAspectRatio one_video = Inr (Some (16 / 9))"
  by (simp add: averageAspectRatio_def mode_list_def one_video_def entry_ratio_descriptor
      resolved_ratio_def metadata_pixels_def media_full_def parseInt_examples bindE_def
      num_add_def num_div_def)

theorem width_zero_still_renders_grid:
  "VideoMasonry one_video \<lparr>cd_width = 0, cd_height = 0\<rparr> (Some 1200)
     = Inr (MasonryGrid 1200 320 (Some 180) [VideoItemData (OObj media_full) 0])
   \<and> VideoMasonry one_video \<lparr>cd_width = 0, cd_height = 0\<rparr> None
     = Inr (MasonryGrid 1200 320 (Some 180) [VideoItemData (OObj media_full) 0])"
proof -
  have "isEmptyForMode one_video = False" "safeItems one_video = [VideoItemData (OObj media_full) 0]"
    "gridSize one_video = 320" "highlightModeEnabled one_video = False"
    by (simp_all add: one_video_def isEmptyForMode_def safeItems_def itemsData_def)
  then show ?thesis
    by (simp add: VideoMasonry_def one_video_average bindE_def num_div_def effectiveWidth_def)
qed

lemma effectiveWidth_zero:
  "effectiveWidth cw win hl = 0 \<longleftrightarrow> cw \<le> 0 \<and> win = Some 0"
  by (cases win) (auto simp: effectiveWidth_def Let_def)

text \<open>
  C6, amended. When the container reports width 0 the effective width falls back to
  \<open>window.innerWidth\<close> (1200 without a window), times 0.7 in highlight mode, and the masonry
  is laid out at that width. When every entry of the list for the mode is a descriptor object
  and the list is not empty, the render returns: the notice instead of the items exactly when
  the container width is not positive and \<open>window.innerWidth\<close> is 0, and otherwise the grid at
  the effective width, with a positive average ratio for the height estimate. With an empty
  list the empty message is returned. When an entry of the list for the mode is \<open>undefined\<close>
  or \<open>null\<close>, the render throws a \<open>TypeError\<close>, whatever the width.
\<close>

theorem width_zero_falls_back:
  "(cd_width cd = 0 \<longrightarrow>
      effectiveWidth (cd_width cd) win (highlightModeEnabled p)
        = (if highlightModeEnabled p then 0.7 else 1) * (case win of Some w \<Rightarrow> w | None \<Rightarrow> 1200))
   \<and> (entries_defined p \<and> \<not> isEmptyForMode p \<longrightarrow>
        (\<exists>avg. averageAspectRatio p = Inr (Some avg) \<and> 0 < avg
           \<and> VideoMasonry p cd win =
               Inr (if cd_width cd \<le> 0 \<and> win = Some 0
                    then MeasuringContainer 0 (cd_height cd)
                    else MasonryGrid (effectiveWidth (cd_width cd) win (highlightModeEnabled p))
                           (gridSize p) (Some (gridSize p / avg)) (itemsData p))))
   \<and> (\<not> isEmptyForMode p \<longrightarrow> itemsData p \<noteq> [])
   \<and> (isEmptyForMode p \<longrightarrow> VideoMasonry p cd win = Inr (EmptyMessage (empty_message p)))
   \<and> (\<not> entries_defined p \<longrightarrow> VideoMasonry p cd win = Inl TypeError)"
proof -
  have ne: "itemsData p \<noteq> []" if "\<not> isEmptyForMode p"
    using that by (cases "mode p") (auto simp: isEmptyForMode_def itemsData_def)
  have fb: "cd_width cd = 0 \<Longrightarrow>
      effectiveWidth (cd_width cd) win (highlightModeEnabled p)
        = (if highlightModeEnabled p then 0.7 else 1) * (case win of Some w \<Rightarrow> w | None \<Rightarrow> 1200)"
    by (simp add: effectiveWidth_def Let_def)
  have r: "\<exists>avg. averageAspectRatio p = Inr (Some avg) \<and> 0 < avg
           \<and> VideoMasonry p cd win =
               Inr (if cd_width cd \<le> 0 \<and> win = Some 0
                    then MeasuringContainer 0 (cd_height cd)
                    else MasonryGrid (effectiveWidth (cd_width cd) win (highlightModeEnabled p))
                           (gridSize p) (Some (gridSize p / avg)) (itemsData p))"
    if "entries_defined p" "\<not> isEmptyForMode p"
  proof -
    from that(1) obtain avg where a: "averageAspectRatio p = Inr (Some avg)" "0 < avg"
      using averageAspectRatio_descriptors by blast
    have "VideoMasonry p cd win =
               Inr (if cd_width cd \<le> 0 \<and> win = Some 0
                    then MeasuringContainer 0 (cd_height cd)
                    else MasonryGrid (effectiveWidth (cd_width cd) win (highlightModeEnabled p))
                           (gridSize p) (Some (gridSize p / avg)) (itemsData p))"
      using that(2) ne [OF that(2)] a
        effectiveWidth_zero [of "cd_width cd" win "highlightModeEnabled p"]
      by (auto simp: VideoMasonry_def Let_def safeItems_def bindE_def num_div_def)
    with a show ?thesis by blast
  qed
  have e: "VideoMasonry p cd win = Inr (EmptyMessage (empty_message p))" if "isEmptyForMode p"
  proof -
    from that have "mode_list p = []" by (simp add: empty_mode_list)
    then have "averageAspectRatio p = Inr (Some (16 / 9))"
      by (simp add: averageAspectRatio_def)
    with that show ?thesis
      by (simp add: VideoMasonry_def Let_def bindE_def)
  qed
  have m: "VideoMasonry p cd win = Inl TypeError" if "\<not> entries_defined p"
    using averageAspectRatio_missing [OF that] by (simp add: VideoMasonry_def Let_def bindE_def)
  from ne fb r e m show ?thesis by blast
qed

text \<open>
  The list of one video at container width 0, with a window of width 1200 and of width 0;
  the empty list; and a list of images whose second entry is \<open>undefined\<close>.
\<close>

definition broken_images :: masonry_props where
  "broken_images =
     \<lparr>videos = [], images = [OObj media_unknown, OUndefined], mode = Images,
      highlightModeEnabled = False, totalVideosCount = 0, totalImagesCount = 2,
      gridSize = 320\<rparr>"

theorem width_zero_falls_back_witness:
  "cd_width \<lparr>cd_width = 0, cd_height = 600\<rparr> = 0
   \<and> entries_defined one_video \<and> \<not> isEmptyForMode one_video
   \<and> effectiveWidth 0 (Some 1200) False = 1200
   \<and> VideoMasonry one_video \<lparr>cd_width = 0, cd_height = 600\<rparr> (Some 1200)
       = Inr (MasonryGrid 1200 320 (Some 180) [VideoItemData (OObj media_full) 0])
   \<and> VideoMasonry one_video \<lparr>cd_width = 0, cd_height = 600\<rparr> (Some 0)
       = Inr (MeasuringContainer 0 600)
   \<and> isEmptyForMode (one_video\<lparr>videos := []\<rparr>)
   \<and> VideoMasonry (one_video\<lparr>videos := []\<rparr>) \<lparr>cd_width = 0, cd_height = 600\<rparr> (Some 0)
       = Inr (EmptyMessage ''No videos match the selected tags.'')
   \<and> \<not> entries_defined broken_images
   \<and> VideoMasonry broken_images \<lparr>cd_width = 0, cd_height = 600\<rparr> (Some 1200) = Inl TypeError"
proof -
  have ne: "\<not> isEmptyForMode one_video" "isEmptyForMode (one_video\<lparr>videos := []\<rparr>)"
    by (simp_all add: isEmptyForMode_def one_video_def)
  have ed: "entries_defined one_video" "\<not> entries_defined broken_images"
    by (simp_all add: entries_defined_def mode_list_def one_video_def broken_images_def)
  have it: "itemsData one_video = [VideoItemData (OObj media_full) 0]"
    by (simp add: itemsData_def one_video_def)
  have ew: "effectiveWidth 0 (Some 1200) False = 1200"
    by (simp add: effectiveWidth_def)
  have g: "gridSize one_video = 320" "highlightModeEnabled one_video = False"
    by (simp_all add: one_video_def)
  let ?cd = "\<lparr>cd_width = 0, cd_height = 600\<rparr>"
  have v1: "VideoMasonry one_video ?cd (Some 1200)
       = Inr (MasonryGrid 1200 320 (Some 180) [VideoItemData (OObj media_full) 0])"
  proof -
    from width_zero_falls_back [of ?cd "Some 1200" one_video] ed(1) ne(1)
    obtain avg where a: "averageAspectRatio one_video = Inr (Some avg)"
      and v: "VideoMasonry one_video ?cd (Some 1200) =
               Inr (if cd_width ?cd \<le> 0 \<and> Some 1200 = Some (0::real)
                    then MeasuringContainer 0 (cd_height ?cd)
                    else MasonryGrid (effectiveWidth (cd_width ?cd) (Some 1200)
                             (highlightModeEnabled one_video))
                           (gridSize one_video) (Some (gridSize one_video / avg))
                           (itemsData one_video))"
      by blast
    from a have "avg = 16 / 9"
      by (simp add: one_video_average)
    with v show ?thesis
      by (simp add: it ew g)
  qed
  have v2: "VideoMasonry one_video ?cd (Some 0) = Inr (MeasuringContainer 0 600)"
  proof -
    from width_zero_falls_back [of ?cd "Some 0" one_video] ed(1) ne(1)
    obtain avg where "VideoMasonry one_video ?cd (Some 0) =
               Inr (if cd_width ?cd \<le> 0 \<and> Some 0 = Some (0::real)
                    then MeasuringContainer 0 (cd_height ?cd)
                    else MasonryGrid (effectiveWidth (cd_width ?cd) (Some 0)
                             (highlightModeEnabled one_video))
                           (gridSize one_video) (Some (gridSize one_video / avg))
                           (itemsData one_video))"
      by blast
    then show ?thesis by simp
  qed
  have v3: "VideoMasonry (one_video\<lparr>videos := []\<rparr>) ?cd (Some 0)
       = Inr (EmptyMessage ''No videos match the selected tags.'')"
    using width_zero_falls_back [of ?cd "Some 0" "one_video\<lparr>videos := []\<rparr>"] ne(2)
    by (simp add: empty_message_def one_video_def)
  have v4: "VideoMasonry broken_images ?cd (Some 1200) = Inl TypeError"
    using width_zero_falls_back [of ?cd "Some 1200" broken_images] ed(2)
    by blast
  from ne ed ew v1 v2 v3 v4 show ?thesis
    by simp
qed

section \<open>ImageItem: lazy loading of one image (ImageItem.jsx)\<close>

text \<open>
  The component keeps three pieces of React state (\<open>isLoaded\<close>, \<open>isFailed\<close>,
  \<open>shouldLoad\<close>) and two refs (\<open>hasRequestedLoadRef\<close>, \<open>srcRef\<close>); the fields that
  VideoItem also has carry the prefix \<open>img_\<close> here. Its inputs are the
  prop-derived \<open>imageUrl\<close> and the \<open>inView\<close> flag of the intersection observer. The two
  \<open>useEffect\<close> hooks depend on \<open>[inView]\<close> and \<open>[imageUrl]\<close>; React runs an effect after a
  render only when one of its dependencies differs from the previous render, so the state
  records the dependency values of the last committed render (\<open>dep_inView\<close>,
  \<open>dep_imageUrl\<close>).
\<close>

record image_item =
  img_isLoaded :: bool
  img_isFailed :: bool
  shouldLoad :: bool
  hasRequestedLoadRef :: bool
  img_srcRef :: string
  imageUrl :: string
  inView :: bool
  dep_inView :: bool
  dep_imageUrl :: string

text \<open>First effect: once in view the first time, mark as shouldLoad.\<close>

definition image_load_effect :: "image_item \<Rightarrow> image_item" where
  "image_load_effect s =
     (if inView s \<and> \<not> hasRequestedLoadRef s
      then s\<lparr>hasRequestedLoadRef := True, shouldLoad := True\<rparr>
      else s)"

text \<open>
  Second effect: when the image source changes, reset the state; \<open>img_srcRef.current\<close> is
  assigned in every run. A JavaScript string is truthy when it is not empty.
\<close>

definition image_reset_effect :: "image_item \<Rightarrow> image_item" where
  "image_reset_effect s =
     (let s1 = (if img_srcRef s \<noteq> [] \<and> img_srcRef s \<noteq> imageUrl s
                then s\<lparr>img_isLoaded := False, img_isFailed := False, shouldLoad := False,
                       hasRequestedLoadRef := False\<rparr>
                else s)
      in s1\<lparr>img_srcRef := imageUrl s\<rparr>)"

text \<open>
  One render followed by its effects, in source order. Both effects read only props and
  refs, so applying the state updates in place is the batched update React performs.
\<close>

definition image_commit :: "image_item \<Rightarrow> image_item" where
  "image_commit s =
     (let s1 = (if inView s \<noteq> dep_inView s then image_load_effect s else s);
          s2 = (if imageUrl s \<noteq> dep_imageUrl s then image_reset_effect s1 else s1)
      in s2\<lparr>dep_inView := inView s, dep_imageUrl := imageUrl s\<rparr>)"

text \<open>
  The mounted component: initial \<open>useState\<close> values, \<open>inView\<close> false, and the mount run of
  both effects (the first does nothing, the second stores the URL in \<open>img_srcRef\<close>).
\<close>

definition image_mount :: "string \<Rightarrow> image_item" where
  "image_mount url =
     image_reset_effect (image_load_effect
       \<lparr>img_isLoaded = False, img_isFailed = False, shouldLoad = False, hasRequestedLoadRef = False,
        img_srcRef = [], imageUrl = url, inView = False, dep_inView = False, dep_imageUrl = url\<rparr>)"

datatype image_event =
  SetInView bool
  | SetImageUrl string
  | ImgLoad
  | ImgError

text \<open>
  The \<open>img\<close> element is rendered only while \<open>img_isFailed\<close> is false, and carries a \<open>src\<close> only
  while \<open>shouldLoad\<close> is true: \<open>None\<close> is "not mounted", \<open>Some None\<close> is "mounted without src".
\<close>

definition image_img_src :: "image_item \<Rightarrow> string option option" where
  "image_img_src s =
     (if img_isFailed s then None
      else Some (if shouldLoad s then Some (imageUrl s) else None))"

text \<open>
  An event changes a prop or runs a handler of the \<open>img\<close> element (which exists, and loads,
  only when it is mounted with a src); the render and its effects follow.
\<close>

fun image_handle :: "image_item \<Rightarrow> image_event \<Rightarrow> image_item" where
  "image_handle s (SetInView b) = s\<lparr>inView := b\<rparr>"
| "image_handle s (SetImageUrl u) = s\<lparr>imageUrl := u\<rparr>"
| "image_handle s ImgLoad =
     (if image_img_src s = Some (Some (imageUrl s)) then s\<lparr>img_isLoaded := True\<rparr> else s)"
| "image_handle s ImgError =
     (if image_img_src s = Some (Some (imageUrl s)) then s\<lparr>img_isFailed := True\<rparr> else s)"

definition image_step :: "image_item \<Rightarrow> image_event \<Rightarrow> image_item" where
  "image_step s e = image_commit (image_handle s e)"

text \<open>
  The URL is \<open>baseFolder + filename\<close> with a non-empty default for either part, so it is
  never the empty string.
\<close>

fun image_event_ok :: "image_event \<Rightarrow> bool" where
  "image_event_ok (SetImageUrl u) = (u \<noteq> [])"
| "image_event_ok _ = True"

inductive image_reachable :: "image_item \<Rightarrow> bool" where
  image_reachable_mount: "url \<noteq> [] \<Longrightarrow> image_reachable (image_mount url)"
| image_reachable_step:
    "image_reachable s \<Longrightarrow> image_event_ok e \<Longrightarrow> image_reachable (image_step s e)"

definition image_inv :: "image_item \<Rightarrow> bool" where
  "image_inv s =
     (hasRequestedLoadRef s = shouldLoad s \<and> img_srcRef s = imageUrl s \<and> imageUrl s \<noteq> []
      \<and> dep_inView s = inView s \<and> dep_imageUrl s = imageUrl s)"

lemma image_inv_mount: "url \<noteq> [] \<Longrightarrow> image_inv (image_mount url)"
  by (simp add: image_inv_def image_mount_def image_load_effect_def image_reset_effect_def)

lemma image_inv_step:
  assumes "image_inv s" and "image_event_ok e"
  shows "image_inv (image_step s e)"
proof (cases e)
  case (SetInView b)
  with assms show ?thesis
    by (auto simp: image_inv_def image_step_def image_commit_def image_load_effect_def)
next
  case (SetImageUrl u)
  with assms show ?thesis
    by (auto simp: image_inv_def image_step_def image_commit_def image_reset_effect_def Let_def)
next
  case ImgLoad
  with assms show ?thesis
    by (auto simp: image_inv_def image_step_def image_commit_def)
next
  case ImgError
  with assms show ?thesis
    by (auto simp: image_inv_def image_step_def image_commit_def)
qed

lemma image_reachable_inv: "image_reachable s \<Longrightarrow> image_inv s"
  by (induction rule: image_reachable.induct) (simp_all add: image_inv_mount image_inv_step)

text \<open>A second render without a new event runs no effect: one commit settles the item.\<close>

lemma image_commit_settled: "image_commit (image_commit s) = image_commit s"
  by (simp add: image_commit_def image_load_effect_def image_reset_effect_def Let_def)

lemma image_visibility_keeps:
  assumes "image_inv s"
  shows "img_isLoaded (image_step s (SetInView b)) = img_isLoaded s"
    and "img_isFailed (image_step s (SetInView b)) = img_isFailed s"
    and "shouldLoad s \<Longrightarrow> shouldLoad (image_step s (SetInView b))"
    and "shouldLoad s \<Longrightarrow> image_img_src (image_step s (SetInView b)) = image_img_src s"
  using assms
  by (auto simp: image_inv_def image_step_def image_commit_def image_load_effect_def
      image_img_src_def)

lemma image_enter_sets_shouldLoad:
  assumes "image_inv s" and "\<not> inView s"
  shows "shouldLoad (image_step s (SetInView True))"
  using assms
  by (auto simp: image_inv_def image_step_def image_commit_def image_load_effect_def)

lemma image_only_url_clears:
  assumes "image_inv s"
    and "(shouldLoad s \<and> \<not> shouldLoad (image_step s e))
         \<or> (img_isLoaded s \<and> \<not> img_isLoaded (image_step s e))"
  shows "\<exists>u. e = SetImageUrl u \<and> u \<noteq> imageUrl s"
proof (cases e)
  case (SetInView b)
  with assms show ?thesis
    by (auto simp: image_inv_def image_step_def image_commit_def image_load_effect_def
        split: if_splits)
next
  case (SetImageUrl u)
  with assms show ?thesis
    by (auto simp: image_inv_def image_step_def image_commit_def image_reset_effect_def Let_def
        split: if_splits)
next
  case ImgLoad
  with assms show ?thesis
    by (auto simp: image_inv_def image_step_def image_commit_def split: if_splits)
next
  case ImgError
  with assms show ?thesis
    by (auto simp: image_inv_def image_step_def image_commit_def split: if_splits)
qed

lemma image_url_change_resets:
  assumes "image_inv s" and "u \<noteq> imageUrl s"
  shows "\<not> img_isLoaded (image_step s (SetImageUrl u))"
    and "\<not> img_isFailed (image_step s (SetImageUrl u))"
    and "\<not> shouldLoad (image_step s (SetImageUrl u))"
    and "\<not> hasRequestedLoadRef (image_step s (SetImageUrl u))"
  using assms
  by (auto simp: image_inv_def image_step_def image_commit_def image_reset_effect_def Let_def)

text \<open>
  C10. Image items are never unloaded. For every reachable state of an image item:
  a visibility change (\<open>SetInView\<close>, entering or leaving the load window) leaves \<open>img_isLoaded\<close>
  unchanged and never unsets \<open>shouldLoad\<close>, so the rendered \<open>img\<close> keeps its \<open>src\<close>;
  entering the load window sets \<open>shouldLoad\<close>; an event under which \<open>shouldLoad\<close> or
  \<open>img_isLoaded\<close> goes from true to false is a change of the image URL; and a change of the
  URL clears \<open>img_isLoaded\<close>, \<open>shouldLoad\<close> and the request ref, so that the next entry into the
  load window requests the image again.
\<close>

theorem image_never_unloaded:
  assumes "image_reachable s"
  shows "(\<forall>b. img_isLoaded (image_step s (SetInView b)) = img_isLoaded s
              \<and> (shouldLoad s \<longrightarrow>
                    shouldLoad (image_step s (SetInView b))
                    \<and> image_img_src (image_step s (SetInView b)) = image_img_src s))
         \<and> (\<not> inView s \<longrightarrow> shouldLoad (image_step s (SetInView True)))
         \<and> (\<forall>e. (shouldLoad s \<and> \<not> shouldLoad (image_step s e))
                    \<or> (img_isLoaded s \<and> \<not> img_isLoaded (image_step s e))
                \<longrightarrow> (\<exists>u. e = SetImageUrl u \<and> u \<noteq> imageUrl s))
         \<and> (\<forall>u. u \<noteq> imageUrl s \<longrightarrow>
                  \<not> img_isLoaded (image_step s (SetImageUrl u))
                  \<and> \<not> shouldLoad (image_step s (SetImageUrl u))
                  \<and> \<not> hasRequestedLoadRef (image_step s (SetImageUrl u)))"
proof -
  have inv: "image_inv s"
    using assms by (rule image_reachable_inv)
  have vis: "\<forall>b. img_isLoaded (image_step s (SetInView b)) = img_isLoaded s
              \<and> (shouldLoad s \<longrightarrow>
                    shouldLoad (image_step s (SetInView b))
                    \<and> image_img_src (image_step s (SetInView b)) = image_img_src s)"
    using image_visibility_keeps [OF inv] by blast
  have enter: "\<not> inView s \<longrightarrow> shouldLoad (image_step s (SetInView True))"
    using image_enter_sets_shouldLoad [OF inv] by blast
  have only: "\<forall>e. (shouldLoad s \<and> \<not> shouldLoad (image_step s e))
                    \<or> (img_isLoaded s \<and> \<not> img_isLoaded (image_step s e))
                \<longrightarrow> (\<exists>u. e = SetImageUrl u \<and> u \<noteq> imageUrl s)"
    using image_only_url_clears [OF inv] by blast
  have reset: "\<forall>u. u \<noteq> imageUrl s \<longrightarrow>
                  \<not> img_isLoaded (image_step s (SetImageUrl u))
                  \<and> \<not> shouldLoad (image_step s (SetImageUrl u))
                  \<and> \<not> hasRequestedLoadRef (image_step s (SetImageUrl u))"
    using image_url_change_resets [OF inv] by blast
  from vis enter only reset show ?thesis by blast
qed

text \<open>
  The theorem at a concrete item: \<open>/images/a.jpg\<close> is mounted, enters the load window and
  reports its load; leaving the window keeps \<open>src\<close> and \<open>img_isLoaded\<close>, and a shuffle that
  assigns \<open>/images/b.jpg\<close> clears them.
\<close>

definition image_demo :: image_item where
  "image_demo =
     image_step (image_step (image_mount ''/images/a.jpg'') (SetInView True)) ImgLoad"

lemma image_demo_reachable: "image_reachable image_demo"
  unfolding image_demo_def
  by (intro image_reachable_step image_reachable_mount) simp_all

theorem image_never_unloaded_witness:
  "image_reachable image_demo
   \<and> shouldLoad image_demo \<and> img_isLoaded image_demo
   \<and> img_isLoaded (image_step image_demo (SetInView False))
   \<and> shouldLoad (image_step image_demo (SetInView False))
   \<and> image_img_src (image_step image_demo (SetInView False)) = Some (Some ''/images/a.jpg'')
   \<and> \<not> img_isLoaded (image_step image_demo (SetImageUrl ''/images/b.jpg''))
   \<and> \<not> shouldLoad (image_step image_demo (SetImageUrl ''/images/b.jpg''))"
proof -
  have vals: "shouldLoad image_demo" "img_isLoaded image_demo"
    "image_img_src image_demo = Some (Some ''/images/a.jpg'')"
    "imageUrl image_demo = ''/images/a.jpg''"
    by (simp_all add: image_demo_def image_step_def image_commit_def image_mount_def
        image_load_effect_def image_reset_effect_def image_img_src_def Let_def)
  from image_never_unloaded [OF image_demo_reachable] vals image_demo_reachable
  show ?thesis by auto
qed

section \<open>useAutoScroll: the idle-driven scroll driver\<close>

text \<open>
  The hook keeps one piece of React state (\<open>autoScrollActive\<close>) and three refs (the flag
  \<open>isAutoScrolling\<close> and the ids of the scroll interval and of the mouse-idle timeout). The
  browser's timer table is part of the state: a timer is an id, the time it is due and its
  callback, and a callback is a closure over the props of the render that created it (the
  scroll speed for a tick; \<open>enabled\<close> and the scroll speed for the idle timeout, whose
  callback calls \<open>startAutoScroll\<close> of that render). Time is counted in milliseconds.
  The scrollable element clamps an assigned \<open>scrollTop\<close> to its scroll range.
\<close>

record scroll_element =
  scrollTop :: real
  clientHeight :: real
  scrollHeight :: real

datatype timer_kind =
  ScrollTick real
  | MouseIdle bool real

type_synonym timer = "nat \<times> nat \<times> timer_kind"

record auto_scroll =
  enabled :: bool
  scrollSpeed :: real
  idleDelay :: nat
  autoScrollActive :: bool
  isAutoScrolling :: bool
  autoScrollIntervalRef :: "nat option"
  mouseIdleTimeoutRef :: "nat option"
  element :: "scroll_element option"
  timers :: "timer list"
  next_timer_id :: nat
  now :: nat
  dep_enabled :: bool
  dep_scrollSpeed :: real
  dep_idleDelay :: nat

definition clear_timer :: "nat option \<Rightarrow> auto_scroll \<Rightarrow> auto_scroll" where
  "clear_timer r s =
     (case r of
        None \<Rightarrow> s
      | Some i \<Rightarrow> s\<lparr>timers := filter (\<lambda>t. fst t \<noteq> i) (timers s)\<rparr>)"

definition set_timer :: "nat \<Rightarrow> timer_kind \<Rightarrow> auto_scroll \<Rightarrow> nat \<times> auto_scroll" where
  "set_timer delay k s =
     (next_timer_id s,
      s\<lparr>timers := timers s @ [(next_timer_id s, now s + delay, k)],
        next_timer_id := Suc (next_timer_id s)\<rparr>)"

definition set_scrollTop :: "real \<Rightarrow> scroll_element \<Rightarrow> scroll_element" where
  "set_scrollTop v el = el\<lparr>scrollTop := max 0 (min v (scrollHeight el - clientHeight el))\<rparr>"

text \<open>
  The callbacks of the hook. \<open>clearInterval\<close> and \<open>clearTimeout\<close> of an id that is not
  pending, or of \<open>null\<close>, do nothing.
\<close>

definition stopAutoScroll :: "auto_scroll \<Rightarrow> auto_scroll" where
  "stopAutoScroll s =
     (if \<not> isAutoScrolling s then s
      else
        (let s1 = s\<lparr>autoScrollActive := False, isAutoScrolling := False\<rparr>;
             s2 = clear_timer (autoScrollIntervalRef s1) s1;
             s3 = clear_timer (mouseIdleTimeoutRef s2) s2
         in s3\<lparr>autoScrollIntervalRef := None\<rparr>))"

definition startAutoScroll :: "bool \<Rightarrow> real \<Rightarrow> auto_scroll \<Rightarrow> auto_scroll" where
  "startAutoScroll c_enabled c_scrollSpeed s =
     (if isAutoScrolling s \<or> \<not> c_enabled then s
      else
        (case element s of
           None \<Rightarrow> s
         | Some el \<Rightarrow>
             (let s1 = s\<lparr>autoScrollActive := True, isAutoScrolling := True\<rparr>;
                  (i, s2) = set_timer 50 (ScrollTick c_scrollSpeed) s1
              in s2\<lparr>autoScrollIntervalRef := Some i\<rparr>)))"

definition scroll_tick :: "real \<Rightarrow> auto_scroll \<Rightarrow> auto_scroll" where
  "scroll_tick c_scrollSpeed s =
     (case element s of
        Some el \<Rightarrow>
          (if isAutoScrolling s then
             (let oldScrollTop = scrollTop el;
                  el1 = set_scrollTop (scrollTop el + c_scrollSpeed) el;
                  el2 = (if scrollTop el1 = oldScrollTop
                         then set_scrollTop (scrollTop el1 + c_scrollSpeed) el1 else el1);
                  s1 = s\<lparr>element := Some el2\<rparr>
              in if scrollHeight el2 \<le> scrollTop el2 + clientHeight el2
                 then stopAutoScroll s1 else s1)
           else (clear_timer (autoScrollIntervalRef s) s)\<lparr>autoScrollIntervalRef := None\<rparr>)
      | None \<Rightarrow>
          (if \<not> isAutoScrolling s
           then (clear_timer (autoScrollIntervalRef s) s)\<lparr>autoScrollIntervalRef := None\<rparr>
           else s))"

definition mouse_idle_timeout :: "bool \<Rightarrow> real \<Rightarrow> auto_scroll \<Rightarrow> auto_scroll" where
  "mouse_idle_timeout c_enabled c_scrollSpeed s =
     (if c_enabled then startAutoScroll c_enabled c_scrollSpeed s else s)"

definition startMouseIdleTimer :: "auto_scroll \<Rightarrow> auto_scroll" where
  "startMouseIdleTimer s =
     (if \<not> enabled s then s
      else
        (let s1 = clear_timer (mouseIdleTimeoutRef s) s;
             (i, s2) = set_timer (idleDelay s1) (MouseIdle (enabled s1) (scrollSpeed s1)) s1
         in s2\<lparr>mouseIdleTimeoutRef := Some i\<rparr>))"

definition handleUserInteraction :: "auto_scroll \<Rightarrow> auto_scroll" where
  "handleUserInteraction s =
     (if isAutoScrolling s then startMouseIdleTimer (stopAutoScroll s) else s)"

definition handleMouseMove :: "auto_scroll \<Rightarrow> auto_scroll" where
  "handleMouseMove s = startMouseIdleTimer (stopAutoScroll s)"

text \<open>
  The block that resets the driver, written out in the effect on \<open>[enabled]\<close> and again in
  the else branch of the effect on \<open>[enabled, startMouseIdleTimer]\<close>.
\<close>

definition disable_now :: "auto_scroll \<Rightarrow> auto_scroll" where
  "disable_now s =
     (if isAutoScrolling s
      then
        (let s1 = s\<lparr>autoScrollActive := False, isAutoScrolling := False\<rparr>;
             s2 = clear_timer (autoScrollIntervalRef s1) s1;
             s3 = clear_timer (mouseIdleTimeoutRef s2) s2
         in s3\<lparr>autoScrollIntervalRef := None\<rparr>)
      else s)"

definition disable_effect :: "auto_scroll \<Rightarrow> auto_scroll" where
  "disable_effect s = (if \<not> enabled s then disable_now s else s)"

definition idle_effect_cleanup :: "auto_scroll \<Rightarrow> auto_scroll" where
  "idle_effect_cleanup s =
     (let s1 = clear_timer (autoScrollIntervalRef s) s
      in clear_timer (mouseIdleTimeoutRef s1) s1)"

definition idle_effect :: "auto_scroll \<Rightarrow> auto_scroll" where
  "idle_effect s = (if enabled s then startMouseIdleTimer s else disable_now s)"

text \<open>
  A render after a change of props. \<open>startAutoScroll\<close>, \<open>startMouseIdleTimer\<close> and
  \<open>handleUserInteraction\<close> are recreated when \<open>enabled\<close>, \<open>scrollSpeed\<close> or \<open>idleDelay\<close> change,
  so the idle effect runs again: React first runs its cleanup (which clears the two refs'
  timers without resetting the refs or the flag), then the effects in source order.
\<close>

definition auto_commit :: "auto_scroll \<Rightarrow> auto_scroll" where
  "auto_commit s =
     (let enabled_changed = (enabled s \<noteq> dep_enabled s);
          callbacks_changed = (enabled_changed \<or> scrollSpeed s \<noteq> dep_scrollSpeed s
                               \<or> idleDelay s \<noteq> dep_idleDelay s);
          s1 = (if callbacks_changed then idle_effect_cleanup s else s);
          s2 = (if enabled_changed then disable_effect s1 else s1);
          s3 = (if callbacks_changed then idle_effect s2 else s2)
      in s3\<lparr>dep_enabled := enabled s, dep_scrollSpeed := scrollSpeed s,
            dep_idleDelay := idleDelay s\<rparr>)"

definition auto_mount ::
  "bool \<Rightarrow> real \<Rightarrow> nat \<Rightarrow> scroll_element option \<Rightarrow> nat \<Rightarrow> auto_scroll" where
  "auto_mount en speed delay el t =
     idle_effect (disable_effect
       \<lparr>enabled = en, scrollSpeed = speed, idleDelay = delay, autoScrollActive = False,
        isAutoScrolling = False, autoScrollIntervalRef = None, mouseIdleTimeoutRef = None,
        element = el, timers = [], next_timer_id = 1, now = t,
        dep_enabled = en, dep_scrollSpeed = speed, dep_idleDelay = delay\<rparr>)"

subsection \<open>Timers and the passage of time\<close>

text \<open>
  A timeout is removed from the table when it fires; an interval stays, due again 50 ms
  later, unless its callback cleared it. A millisecond fires the timers that are due.
\<close>

definition auto_fire_timer :: "nat \<Rightarrow> auto_scroll \<Rightarrow> auto_scroll" where
  "auto_fire_timer i s =
     (case map_of (timers s) i of
        None \<Rightarrow> s
      | Some (due, ScrollTick v) \<Rightarrow>
          (let s1 = scroll_tick v s
           in s1\<lparr>timers := map (\<lambda>t. if t = (i, due, ScrollTick v)
                                        then (i, due + 50, ScrollTick v) else t)
                              (timers s1)\<rparr>)
      | Some (due, MouseIdle c_en v) \<Rightarrow>
          mouse_idle_timeout c_en v (clear_timer (Some i) s))"

fun auto_fire_timers :: "nat list \<Rightarrow> auto_scroll \<Rightarrow> auto_scroll" where
  "auto_fire_timers [] s = s"
| "auto_fire_timers (i # is) s = auto_fire_timers is (auto_fire_timer i s)"

definition auto_millisecond :: "auto_scroll \<Rightarrow> auto_scroll" where
  "auto_millisecond s =
     (let s1 = s\<lparr>now := Suc (now s)\<rparr>
      in auto_fire_timers (map fst (filter (\<lambda>t. fst (snd t) \<le> now s1) (timers s1))) s1)"

fun auto_elapse :: "nat \<Rightarrow> auto_scroll \<Rightarrow> auto_scroll" where
  "auto_elapse 0 s = s"
| "auto_elapse (Suc d) s = auto_elapse d (auto_millisecond s)"

datatype auto_event =
  SetEnabled bool
  | SetScrollSpeed real
  | UserInteraction
  | MouseMove
  | UserScroll real
  | AutoElapse nat

fun auto_step :: "auto_scroll \<Rightarrow> auto_event \<Rightarrow> auto_scroll" where
  "auto_step s (SetEnabled b) = auto_commit (s\<lparr>enabled := b\<rparr>)"
| "auto_step s (SetScrollSpeed v) = auto_commit (s\<lparr>scrollSpeed := v\<rparr>)"
| "auto_step s UserInteraction = handleUserInteraction s"
| "auto_step s MouseMove = handleMouseMove s"
| "auto_step s (UserScroll y) =
     s\<lparr>element := map_option (set_scrollTop y) (element s)\<rparr>"
| "auto_step s (AutoElapse d) = auto_elapse d s"

inductive auto_reachable :: "auto_scroll \<Rightarrow> bool" where
  auto_reachable_mount: "auto_reachable (auto_mount en speed delay el t)"
| auto_reachable_step: "auto_reachable s \<Longrightarrow> auto_reachable (auto_step s e)"


subsection \<open>Invariant: every pending timer is tracked by its ref\<close>

fun timer_tracked :: "auto_scroll \<Rightarrow> timer \<Rightarrow> bool" where
  "timer_tracked s (i, due, ScrollTick v) =
     (autoScrollIntervalRef s = Some i \<and> isAutoScrolling s)"
| "timer_tracked s (i, due, MouseIdle c_en v) = (mouseIdleTimeoutRef s = Some i \<and> c_en)"

definition auto_inv :: "auto_scroll \<Rightarrow> bool" where
  "auto_inv s =
     (autoScrollActive s = isAutoScrolling s
      \<and> list_all (timer_tracked s) (timers s)
      \<and> (enabled s \<or> (timers s = [] \<and> \<not> isAutoScrolling s))
      \<and> dep_enabled s = enabled s \<and> dep_scrollSpeed s = scrollSpeed s
      \<and> dep_idleDelay s = idleDelay s)"

lemma tracked_cong:
  "autoScrollIntervalRef s' = autoScrollIntervalRef s \<Longrightarrow>
   mouseIdleTimeoutRef s' = mouseIdleTimeoutRef s \<Longrightarrow>
   isAutoScrolling s' = isAutoScrolling s \<Longrightarrow>
   timer_tracked s' t = timer_tracked s t"
  by (cases "(s, t)" rule: timer_tracked.cases) auto

lemma clear_timer_fields [simp]:
  "enabled (clear_timer r s) = enabled s"
  "scrollSpeed (clear_timer r s) = scrollSpeed s"
  "idleDelay (clear_timer r s) = idleDelay s"
  "autoScrollActive (clear_timer r s) = autoScrollActive s"
  "isAutoScrolling (clear_timer r s) = isAutoScrolling s"
  "autoScrollIntervalRef (clear_timer r s) = autoScrollIntervalRef s"
  "mouseIdleTimeoutRef (clear_timer r s) = mouseIdleTimeoutRef s"
  "element (clear_timer r s) = element s"
  "now (clear_timer r s) = now s"
  "next_timer_id (clear_timer r s) = next_timer_id s"
  "dep_enabled (clear_timer r s) = dep_enabled s"
  "dep_scrollSpeed (clear_timer r s) = dep_scrollSpeed s"
  "dep_idleDelay (clear_timer r s) = dep_idleDelay s"
  by (simp_all add: clear_timer_def split: option.splits)

lemma clear_timer_timers:
  "timers (clear_timer r s) =
     (case r of None \<Rightarrow> timers s | Some i \<Rightarrow> filter (\<lambda>t. fst t \<noteq> i) (timers s))"
  by (simp add: clear_timer_def split: option.splits)

lemma tracked_id:
  "timer_tracked s t \<Longrightarrow>
   autoScrollIntervalRef s = Some (fst t) \<or> mouseIdleTimeoutRef s = Some (fst t)"
  by (cases "(s, t)" rule: timer_tracked.cases) auto

lemma clear_both_empty:
  assumes "list_all (timer_tracked s0) (timers s)"
    and "autoScrollIntervalRef s = autoScrollIntervalRef s0"
    and "mouseIdleTimeoutRef s = mouseIdleTimeoutRef s0"
  shows "timers (clear_timer (mouseIdleTimeoutRef s) (clear_timer (autoScrollIntervalRef s) s)) = []"
proof -
  have ids: "autoScrollIntervalRef s = Some (fst t) \<or> mouseIdleTimeoutRef s = Some (fst t)"
    if "t \<in> set (timers s)" for t
    using assms that by (auto simp: list_all_iff dest: tracked_id)
  have "timers s = []" if "autoScrollIntervalRef s = None" "mouseIdleTimeoutRef s = None"
  proof (cases "timers s")
    case (Cons t ts)
    then show ?thesis using ids [of t] that by simp
  qed simp
  then show ?thesis
    using ids
    by (cases "autoScrollIntervalRef s"; cases "mouseIdleTimeoutRef s")
       (auto simp: clear_timer_timers filter_empty_conv)
qed

lemma tracked_tick_flag:
  "timer_tracked s (i, due, ScrollTick v) \<Longrightarrow> isAutoScrolling s"
  by simp

lemma no_ticks_when_idle:
  assumes "list_all (timer_tracked s) (timers s)" and "\<not> isAutoScrolling s"
    and "t \<in> set (timers s)"
  shows "\<exists>i due c v. t = (i, due, MouseIdle c v)"
proof -
  have "timer_tracked s t" using assms by (simp add: list_all_iff)
  with assms(2) show ?thesis
    by (cases "(s, t)" rule: timer_tracked.cases) auto
qed

lemma stopAutoScroll_timers:
  assumes "auto_inv s" and "isAutoScrolling s"
  shows "timers (stopAutoScroll s) = []"
proof -
  let ?s1 = "s\<lparr>autoScrollActive := False, isAutoScrolling := False\<rparr>"
  have "timers (clear_timer (mouseIdleTimeoutRef ?s1) (clear_timer (autoScrollIntervalRef ?s1) ?s1)) = []"
    by (rule clear_both_empty [where ?s0.0 = s]) (use assms in \<open>simp_all add: auto_inv_def\<close>)
  then show ?thesis
    using assms(2) by (simp add: stopAutoScroll_def Let_def)
qed

lemma stopAutoScroll_inv:
  assumes "auto_inv s"
  shows "auto_inv (stopAutoScroll s)"
proof (cases "isAutoScrolling s")
  case True
  have t: "timers (stopAutoScroll s) = []"
    using assms True by (rule stopAutoScroll_timers)
  have "\<not> isAutoScrolling (stopAutoScroll s)" "\<not> autoScrollActive (stopAutoScroll s)"
    "dep_enabled (stopAutoScroll s) = dep_enabled s" "enabled (stopAutoScroll s) = enabled s"
    "dep_scrollSpeed (stopAutoScroll s) = dep_scrollSpeed s"
    "scrollSpeed (stopAutoScroll s) = scrollSpeed s"
    "dep_idleDelay (stopAutoScroll s) = dep_idleDelay s"
    "idleDelay (stopAutoScroll s) = idleDelay s"
    using True by (simp_all add: stopAutoScroll_def Let_def)
  with t assms show ?thesis by (simp add: auto_inv_def)
next
  case False
  with assms show ?thesis by (simp add: stopAutoScroll_def)
qed

lemma set_timer_simps [simp]:
  "fst (set_timer d k s) = next_timer_id s"
  "snd (set_timer d k s) =
     s\<lparr>timers := timers s @ [(next_timer_id s, now s + d, k)],
       next_timer_id := Suc (next_timer_id s)\<rparr>"
  by (simp_all add: set_timer_def)

lemma startMouseIdleTimer_inv:
  assumes "auto_inv s"
  shows "auto_inv (startMouseIdleTimer s)"
proof (cases "enabled s")
  case True
  let ?s1 = "clear_timer (mouseIdleTimeoutRef s) s"
  have old: "timer_tracked s t" if "t \<in> set (timers s)" for t
    using assms that by (simp add: auto_inv_def list_all_iff)
  have keep: "\<exists>i due v. t = (i, due, ScrollTick v) \<and> autoScrollIntervalRef s = Some i
                \<and> isAutoScrolling s"
    if "t \<in> set (timers ?s1)" for t
  proof -
    from that have m: "t \<in> set (timers s)" and ne: "mouseIdleTimeoutRef s \<noteq> Some (fst t)"
      by (auto simp: clear_timer_timers split: option.splits)
    from old [OF m] ne show ?thesis
      by (cases "(s, t)" rule: timer_tracked.cases) auto
  qed
  show ?thesis
    using True assms
    by (auto simp: startMouseIdleTimer_def Let_def split_def auto_inv_def list_all_iff
        dest!: keep)
next
  case False
  then show ?thesis using assms by (simp add: startMouseIdleTimer_def)
qed

lemma startAutoScroll_inv:
  assumes "auto_inv s" and "enabled s"
  shows "auto_inv (startAutoScroll c v s)"
proof (cases "isAutoScrolling s \<or> \<not> c \<or> element s = None")
  case True
  then show ?thesis using assms by (auto simp: startAutoScroll_def)
next
  case False
  have keep: "\<exists>i due c v. t = (i, due, MouseIdle c v) \<and> mouseIdleTimeoutRef s = Some i \<and> c"
    if "t \<in> set (timers s)" for t
  proof -
    have "timer_tracked s t" using assms that by (simp add: auto_inv_def list_all_iff)
    with False show ?thesis
      by (cases "(s, t)" rule: timer_tracked.cases) auto
  qed
  show ?thesis
    using False assms
    by (auto simp: startAutoScroll_def Let_def split_def auto_inv_def list_all_iff
        dest!: keep)
qed

lemma handleUserInteraction_inv: "auto_inv s \<Longrightarrow> auto_inv (handleUserInteraction s)"
  by (simp add: handleUserInteraction_def startMouseIdleTimer_inv stopAutoScroll_inv)

lemma handleMouseMove_inv: "auto_inv s \<Longrightarrow> auto_inv (handleMouseMove s)"
  by (simp add: handleMouseMove_def startMouseIdleTimer_inv stopAutoScroll_inv)

lemma clear_timer_inv: "auto_inv s \<Longrightarrow> auto_inv (clear_timer r s)"
  by (auto simp: auto_inv_def list_all_iff clear_timer_timers
      tracked_cong [of "clear_timer r s" s] split: option.splits)

lemma element_update_inv: "auto_inv s \<Longrightarrow> auto_inv (s\<lparr>element := e\<rparr>)"
  by (auto simp: auto_inv_def list_all_iff tracked_cong [of "s\<lparr>element := e\<rparr>" s])

lemma forget_interval_inv:
  assumes "auto_inv s" and "\<not> isAutoScrolling s"
  shows "auto_inv ((clear_timer (autoScrollIntervalRef s) s)\<lparr>autoScrollIntervalRef := None\<rparr>)"
proof -
  have keep: "\<exists>i due c v. t = (i, due, MouseIdle c v) \<and> mouseIdleTimeoutRef s = Some i \<and> c"
    if "t \<in> set (timers s)" for t
  proof -
    have "timer_tracked s t" using assms that by (simp add: auto_inv_def list_all_iff)
    with assms(2) show ?thesis
      by (cases "(s, t)" rule: timer_tracked.cases) auto
  qed
  show ?thesis
    using assms
    by (auto simp: auto_inv_def list_all_iff clear_timer_timers split: option.splits
        dest!: keep)
qed

lemma scroll_tick_inv:
  assumes "auto_inv s"
  shows "auto_inv (scroll_tick v s)"
proof (cases "element s")
  case None
  then show ?thesis
    using assms forget_interval_inv [OF assms] by (simp add: scroll_tick_def)
next
  case (Some el)
  show ?thesis
  proof (cases "isAutoScrolling s")
    case True
    with Some show ?thesis
      using assms
      by (simp add: scroll_tick_def Let_def stopAutoScroll_inv element_update_inv)
  next
    case False
    with Some show ?thesis
      using forget_interval_inv [OF assms] by (simp add: scroll_tick_def)
  qed
qed

lemma reschedule_inv:
  assumes "auto_inv s"
  shows "auto_inv (s\<lparr>timers := map (\<lambda>t. if t = (i, due, ScrollTick v)
                                        then (i, due + 50, ScrollTick v) else t) (timers s)\<rparr>)"
proof -
  let ?f = "\<lambda>t. if t = (i, due, ScrollTick v) then (i, due + 50, ScrollTick v) else t"
  let ?s = "s\<lparr>timers := map ?f (timers s)\<rparr>"
  have c: "timer_tracked ?s t = timer_tracked s t" for t
    by (rule tracked_cong) simp_all
  have "timer_tracked s (?f t)" if "timer_tracked s t" for t
    using that by auto
  moreover have "list_all (timer_tracked s) (timers s)"
    using assms by (simp add: auto_inv_def)
  ultimately have "list_all (timer_tracked s) (map ?f (timers s))"
    unfolding list.pred_map by (simp add: list_all_iff)
  then have "list_all (timer_tracked ?s) (timers ?s)"
    by (simp add: list_all_iff c)
  then show ?thesis
    using assms by (simp add: auto_inv_def)
qed

lemma auto_fire_timer_inv:
  assumes "auto_inv s"
  shows "auto_inv (auto_fire_timer i s)"
proof (cases "map_of (timers s) i")
  case None
  then show ?thesis using assms by (simp add: auto_fire_timer_def)
next
  case (Some dk)
  then have ne: "timers s \<noteq> []" by auto
  then have en: "enabled s" using assms by (auto simp: auto_inv_def)
  obtain due k where dk: "dk = (due, k)" by (cases dk)
  show ?thesis
  proof (cases k)
    case (ScrollTick v)
    with Some dk show ?thesis
      using reschedule_inv [OF scroll_tick_inv [OF assms]]
      by (simp add: auto_fire_timer_def Let_def)
  next
    case (MouseIdle c v)
    have "auto_inv (clear_timer (Some i) s)" using assms by (rule clear_timer_inv)
    moreover have "enabled (clear_timer (Some i) s)" using en by simp
    ultimately have "auto_inv (mouse_idle_timeout c v (clear_timer (Some i) s))"
      by (simp add: mouse_idle_timeout_def startAutoScroll_inv)
    with Some dk MouseIdle show ?thesis by (simp add: auto_fire_timer_def)
  qed
qed

lemma auto_fire_timers_inv: "auto_inv s \<Longrightarrow> auto_inv (auto_fire_timers is s)"
  by (induction "is" arbitrary: s) (simp_all add: auto_fire_timer_inv)

lemma now_update_inv: "auto_inv s \<Longrightarrow> auto_inv (s\<lparr>now := t\<rparr>)"
  by (auto simp: auto_inv_def list_all_iff tracked_cong [of "s\<lparr>now := t\<rparr>" s])

lemma auto_millisecond_inv: "auto_inv s \<Longrightarrow> auto_inv (auto_millisecond s)"
  by (simp add: auto_millisecond_def Let_def auto_fire_timers_inv now_update_inv)

lemma auto_elapse_inv: "auto_inv s \<Longrightarrow> auto_inv (auto_elapse d s)"
  by (induction d arbitrary: s) (simp_all add: auto_millisecond_inv)

lemma disable_now_fields [simp]:
  "enabled (disable_now s) = enabled s"
  "scrollSpeed (disable_now s) = scrollSpeed s"
  "idleDelay (disable_now s) = idleDelay s"
  "dep_enabled (disable_now s) = dep_enabled s"
  "dep_scrollSpeed (disable_now s) = dep_scrollSpeed s"
  "dep_idleDelay (disable_now s) = dep_idleDelay s"
  "element (disable_now s) = element s"
  by (simp_all add: disable_now_def Let_def)

lemma disable_now_off:
  assumes "timers s = []" and "autoScrollActive s = isAutoScrolling s"
  shows "timers (disable_now s) = []" "\<not> isAutoScrolling (disable_now s)"
    "\<not> autoScrollActive (disable_now s)"
  using assms by (auto simp: disable_now_def Let_def clear_timer_timers split: option.splits)

lemma idle_effect_cleanup_fields [simp]:
  "enabled (idle_effect_cleanup s) = enabled s"
  "scrollSpeed (idle_effect_cleanup s) = scrollSpeed s"
  "idleDelay (idle_effect_cleanup s) = idleDelay s"
  "dep_enabled (idle_effect_cleanup s) = dep_enabled s"
  "dep_scrollSpeed (idle_effect_cleanup s) = dep_scrollSpeed s"
  "dep_idleDelay (idle_effect_cleanup s) = dep_idleDelay s"
  "autoScrollActive (idle_effect_cleanup s) = autoScrollActive s"
  "isAutoScrolling (idle_effect_cleanup s) = isAutoScrolling s"
  "element (idle_effect_cleanup s) = element s"
  by (simp_all add: idle_effect_cleanup_def Let_def)

lemma idle_effect_cleanup_timers:
  assumes "list_all (timer_tracked s) (timers s)"
  shows "timers (idle_effect_cleanup s) = []"
  unfolding idle_effect_cleanup_def Let_def
  by (simp only: clear_timer_fields) (rule clear_both_empty [OF assms], simp_all)

text \<open>
  What a render does once a prop that the callbacks close over has changed: the cleanup of
  the idle effect has emptied the timer table; the effects then either start one idle timer
  (enabled) or reset the flags (disabled).
\<close>

lemma after_cleanup_inv:
  assumes "timers c = []" and "autoScrollActive c = isAutoScrolling c"
  shows "auto_inv ((idle_effect (if x then disable_effect c else c))
                     \<lparr>dep_enabled := enabled c, dep_scrollSpeed := scrollSpeed c,
                      dep_idleDelay := idleDelay c\<rparr>)"
proof -
  define d where "d = (if x then disable_effect c else c)"
  have d0: "timers d = []" "autoScrollActive d = isAutoScrolling d" "enabled d = enabled c"
    "scrollSpeed d = scrollSpeed c" "idleDelay d = idleDelay c"
    using assms disable_now_off [of c]
    by (auto simp: d_def disable_effect_def)
  show ?thesis
  proof (cases "enabled c")
    case True
    then show ?thesis
      unfolding d_def [symmetric] using d0
      by (auto simp: idle_effect_def startMouseIdleTimer_def Let_def split_def auto_inv_def
          clear_timer_timers split: option.splits)
  next
    case False
    then show ?thesis
      unfolding d_def [symmetric] using d0 disable_now_off [of d]
      by (simp add: idle_effect_def auto_inv_def)
  qed
qed

lemma auto_commit_inv:
  assumes "auto_inv s"
  shows "auto_inv (auto_commit (s\<lparr>enabled := b, scrollSpeed := v\<rparr>))"
proof (cases "b = enabled s \<and> v = scrollSpeed s")
  case True
  then have "s\<lparr>enabled := b, scrollSpeed := v\<rparr> = s" by simp
  moreover have "auto_commit s = s"
    using assms by (simp add: auto_commit_def auto_inv_def)
  ultimately show ?thesis using assms by simp
next
  case False
  let ?s = "s\<lparr>enabled := b, scrollSpeed := v\<rparr>"
  have changed: "enabled ?s \<noteq> dep_enabled ?s \<or> scrollSpeed ?s \<noteq> dep_scrollSpeed ?s"
    using False assms by (auto simp: auto_inv_def)
  have "list_all (timer_tracked ?s) (timers ?s)"
    using assms by (simp add: auto_inv_def list_all_iff tracked_cong [of ?s s])
  then have c0: "timers (idle_effect_cleanup ?s) = []"
    by (rule idle_effect_cleanup_timers)
  have cf: "autoScrollActive (idle_effect_cleanup ?s) = isAutoScrolling (idle_effect_cleanup ?s)"
    using assms by (simp add: auto_inv_def)
  have "auto_commit ?s =
          (idle_effect (if enabled ?s \<noteq> dep_enabled ?s
                        then disable_effect (idle_effect_cleanup ?s)
                        else idle_effect_cleanup ?s))
            \<lparr>dep_enabled := enabled (idle_effect_cleanup ?s),
             dep_scrollSpeed := scrollSpeed (idle_effect_cleanup ?s),
             dep_idleDelay := idleDelay (idle_effect_cleanup ?s)\<rparr>"
    using changed by (auto simp: auto_commit_def Let_def)
  then show ?thesis
    using after_cleanup_inv [OF c0 cf] by simp
qed

lemma auto_mount_inv: "auto_inv (auto_mount en speed delay el t)"
  by (auto simp: auto_mount_def idle_effect_def disable_effect_def disable_now_def
      startMouseIdleTimer_def auto_inv_def Let_def split_def clear_timer_def)

lemma auto_step_inv:
  assumes "auto_inv s"
  shows "auto_inv (auto_step s e)"
proof (cases e)
  case (SetEnabled b)
  then show ?thesis using auto_commit_inv [OF assms, where b = b and v = "scrollSpeed s"] by simp
next
  case (SetScrollSpeed v)
  then show ?thesis using auto_commit_inv [OF assms, where b = "enabled s" and v = v] by simp
next
  case (UserScroll y)
  then show ?thesis using assms by (simp add: element_update_inv)
qed (simp_all add: assms handleUserInteraction_inv handleMouseMove_inv auto_elapse_inv)

lemma auto_reachable_inv: "auto_reachable s \<Longrightarrow> auto_inv s"
  by (induction rule: auto_reachable.induct) (simp_all add: auto_mount_inv auto_step_inv)


subsection \<open>Time passing without a due timer\<close>

lemma auto_elapse_add: "auto_elapse (a + b) s = auto_elapse b (auto_elapse a s)"
  by (induction a arbitrary: s) simp_all

lemma auto_millisecond_quiet:
  assumes "\<forall>t \<in> set (timers s). Suc (now s) < fst (snd t)"
  shows "auto_millisecond s = s\<lparr>now := Suc (now s)\<rparr>"
proof -
  have "filter (\<lambda>t. fst (snd t) \<le> Suc (now s)) (timers s) = []"
    using assms by (auto simp: filter_empty_conv)
  then show ?thesis by (simp add: auto_millisecond_def Let_def)
qed

lemma auto_elapse_quiet:
  assumes "\<forall>t \<in> set (timers s). now s + d < fst (snd t)"
  shows "auto_elapse d s = s\<lparr>now := now s + d\<rparr>"
  using assms
proof (induction d arbitrary: s)
  case 0
  then show ?case by simp
next
  case (Suc d)
  have m: "auto_millisecond s = s\<lparr>now := Suc (now s)\<rparr>"
    using Suc.prems by (intro auto_millisecond_quiet) auto
  let ?s1 = "s\<lparr>now := Suc (now s)\<rparr>"
  have "\<forall>t \<in> set (timers ?s1). now ?s1 + d < fst (snd t)"
    using Suc.prems by auto
  then have "auto_elapse d ?s1 = ?s1\<lparr>now := now ?s1 + d\<rparr>"
    by (rule Suc.IH)
  with m show ?case by simp
qed

lemma auto_elapse_no_timers: "timers s = [] \<Longrightarrow> auto_elapse d s = s\<lparr>now := now s + d\<rparr>"
  by (rule auto_elapse_quiet) simp

lemma auto_elapse_to_single_timer:
  assumes "timers s = [(i, due, k)]" and "now s < due"
  shows "auto_elapse (due - now s) s = auto_fire_timer i (s\<lparr>now := due\<rparr>)"
proof -
  obtain r where r: "due - now s = r + 1" "now s + r + 1 = due"
    using assms(2) by (metis Suc_eq_plus1 add.assoc less_imp_Suc_add add_diff_cancel_left')
  have q: "auto_elapse r s = s\<lparr>now := now s + r\<rparr>"
    using assms r by (intro auto_elapse_quiet) auto
  have "auto_elapse (r + 1) s = auto_elapse 1 (auto_elapse r s)"
    by (rule auto_elapse_add)
  then have "auto_elapse (r + 1) s = auto_millisecond (auto_elapse r s)"
    by simp
  also have "\<dots> = auto_fire_timer i (s\<lparr>now := due\<rparr>)"
    using assms r by (simp add: q auto_millisecond_def Let_def)
  finally show ?thesis using r by simp
qed


subsection \<open>The running driver\<close>

text \<open>
  The state right after \<open>startAutoScroll\<close>, and after every tick that has not reached the
  bottom: the flag is set, the interval with captured speed \<open>v\<close> is the only pending timer,
  due at \<open>due\<close>, and the scroll position is within the scroll range of the element.
\<close>

definition driver_running :: "real \<Rightarrow> nat \<Rightarrow> auto_scroll \<Rightarrow> bool" where
  "driver_running v due s =
     (isAutoScrolling s \<and> autoScrollActive s \<and> now s < due
      \<and> (case autoScrollIntervalRef s of
            Some i \<Rightarrow> timers s = [(i, due, ScrollTick v)]
          | None \<Rightarrow> False)
      \<and> (case element s of
            Some el \<Rightarrow> 0 \<le> scrollTop el \<and> scrollTop el \<le> scrollHeight el - clientHeight el
          | None \<Rightarrow> False))"

lemma driver_runningD:
  assumes "driver_running v due s"
  obtains i el where "timers s = [(i, due, ScrollTick v)]" "autoScrollIntervalRef s = Some i"
    "isAutoScrolling s" "autoScrollActive s" "now s < due" "element s = Some el"
    "0 \<le> scrollTop el" "scrollTop el \<le> scrollHeight el - clientHeight el"
  using assms
  by (auto simp: driver_running_def split: option.splits)

lemma between_ticks:
  assumes "driver_running v due s" and "d < due - now s"
  shows "auto_elapse d s = s\<lparr>now := now s + d\<rparr>"
proof -
  from assms(1) obtain i where "timers s = [(i, due, ScrollTick v)]"
    by (rule driver_runningD)
  then show ?thesis using assms(2) by (intro auto_elapse_quiet) auto
qed

lemma tick_continues:
  assumes "driver_running v due s" and "0 < v" and "element s = Some el"
    and "scrollTop el + v < scrollHeight el - clientHeight el"
  shows "element (auto_elapse (due - now s) s) = Some (el\<lparr>scrollTop := scrollTop el + v\<rparr>)"
    and "driver_running v (due + 50) (auto_elapse (due - now s) s)"
proof -
  from assms(1) obtain i el' where r: "timers s = [(i, due, ScrollTick v)]"
    "autoScrollIntervalRef s = Some i" "isAutoScrolling s" "autoScrollActive s" "now s < due"
    "element s = Some el'" "0 \<le> scrollTop el'" "scrollTop el' \<le> scrollHeight el' - clientHeight el'"
    by (rule driver_runningD)
  with assms(3) have el: "el' = el" by simp
  have e: "auto_elapse (due - now s) s = auto_fire_timer i (s\<lparr>now := due\<rparr>)"
    using r(1) r(5) by (rule auto_elapse_to_single_timer)
  have f: "auto_fire_timer i (s\<lparr>now := due\<rparr>)
           = s\<lparr>now := due, element := Some (el\<lparr>scrollTop := scrollTop el + v\<rparr>),
               timers := [(i, due + 50, ScrollTick v)]\<rparr>"
    using r assms(2,3,4) el
    by (simp add: auto_fire_timer_def scroll_tick_def set_scrollTop_def Let_def)
  show "element (auto_elapse (due - now s) s) = Some (el\<lparr>scrollTop := scrollTop el + v\<rparr>)"
    by (simp add: e f)
  show "driver_running v (due + 50) (auto_elapse (due - now s) s)"
    using r assms(2,4) el by (simp add: e f driver_running_def)
qed

lemma tick_reaches_bottom:
  assumes "driver_running v due s" and "0 < v" and "element s = Some el"
    and "scrollHeight el - clientHeight el \<le> scrollTop el + v"
  shows "auto_elapse (due - now s) s
         = s\<lparr>now := due, element := Some (el\<lparr>scrollTop := scrollHeight el - clientHeight el\<rparr>),
             autoScrollActive := False, isAutoScrolling := False, timers := [],
             autoScrollIntervalRef := None\<rparr>"
proof -
  from assms(1) obtain i el' where r: "timers s = [(i, due, ScrollTick v)]"
    "autoScrollIntervalRef s = Some i" "isAutoScrolling s" "autoScrollActive s" "now s < due"
    "element s = Some el'" "0 \<le> scrollTop el'" "scrollTop el' \<le> scrollHeight el' - clientHeight el'"
    by (rule driver_runningD)
  with assms(3) have el: "el' = el" by simp
  have e: "auto_elapse (due - now s) s = auto_fire_timer i (s\<lparr>now := due\<rparr>)"
    using r(1) r(5) by (rule auto_elapse_to_single_timer)
  have m: "max 0 (min (scrollTop el + v) (scrollHeight el - clientHeight el))
           = scrollHeight el - clientHeight el"
    using r(7,8) assms(4) el by simp
  show ?thesis
    using r assms(2,3,4) el
    by (auto simp: e auto_fire_timer_def scroll_tick_def set_scrollTop_def Let_def m
        stopAutoScroll_def clear_timer_def split: option.splits)
qed

lemma interaction_stops:
  assumes "driver_running v due s" and "enabled s"
  shows "handleUserInteraction s
         = s\<lparr>autoScrollActive := False, isAutoScrolling := False, autoScrollIntervalRef := None,
             timers := [(next_timer_id s, now s + idleDelay s, MouseIdle True (scrollSpeed s))],
             next_timer_id := Suc (next_timer_id s),
             mouseIdleTimeoutRef := Some (next_timer_id s)\<rparr>"
proof -
  from assms(1) obtain i el' where r: "timers s = [(i, due, ScrollTick v)]"
    "autoScrollIntervalRef s = Some i" "isAutoScrolling s" "autoScrollActive s"
    by (rule driver_runningD)
  then show ?thesis
    using assms(2)
    by (auto simp: handleUserInteraction_def stopAutoScroll_def startMouseIdleTimer_def
        clear_timer_def Let_def split_def split: option.splits)
qed

lemma idle_restart:
  assumes "timers u = [(i, due, MouseIdle True v)]" and "now u < due"
    and "\<not> isAutoScrolling u" and "element u = Some el"
    and "0 \<le> scrollTop el" and "scrollTop el \<le> scrollHeight el - clientHeight el"
  shows "driver_running v (due + 50) (auto_elapse (due - now u) u)"
    and "element (auto_elapse (due - now u) u) = Some el"
proof -
  have e: "auto_elapse (due - now u) u = auto_fire_timer i (u\<lparr>now := due\<rparr>)"
    using assms(1,2) by (rule auto_elapse_to_single_timer)
  show "driver_running v (due + 50) (auto_elapse (due - now u) u)"
    using assms
    by (simp add: e auto_fire_timer_def mouse_idle_timeout_def startAutoScroll_def clear_timer_def
        Let_def split_def driver_running_def)
  show "element (auto_elapse (due - now u) u) = Some el"
    using assms
    by (simp add: e auto_fire_timer_def mouse_idle_timeout_def startAutoScroll_def clear_timer_def
        Let_def split_def)
qed


lemma stopped_stays:
  assumes "timers s = []"
  shows "element (auto_elapse d s) = element s" "timers (auto_elapse d s) = []"
    "isAutoScrolling (auto_elapse d s) = isAutoScrolling s"
  using assms by (simp_all add: auto_elapse_no_timers)

text \<open>
  One tick of the driver, as long as nothing but time or a user interaction arrives. While
  the driver runs with a positive scroll speed \<open>v\<close>: nothing moves before the
  tick is due; at the tick, if \<open>scrollTop + v\<close> is still above the end of the scroll range,
  \<open>scrollTop\<close> has grown by exactly \<open>v\<close> and the driver keeps running with the next tick
  50 ms later; otherwise \<open>scrollTop\<close> is at the bottom
  (\<open>scrollTop + clientHeight \<ge> scrollHeight\<close>), the driver has stopped, no timer is pending
  and the position never changes again by itself. A user interaction (\<open>handleUserInteraction\<close>,
  or a significant mouse move) stops the driver at once: the position stays where it is for
  every delay shorter than \<open>idleDelay\<close>, and when \<open>idleDelay\<close> has elapsed the driver is
  running again.
\<close>

theorem auto_scroll_tick_progress:
  assumes "driver_running v due s" and "0 < v" and "element s = Some el"
  shows "(\<forall>d. d < due - now s \<longrightarrow> element (auto_elapse d s) = Some el)
   \<and> (scrollTop el + v < scrollHeight el - clientHeight el \<longrightarrow>
        element (auto_elapse (due - now s) s) = Some (el\<lparr>scrollTop := scrollTop el + v\<rparr>)
        \<and> driver_running v (due + 50) (auto_elapse (due - now s) s))
   \<and> (scrollHeight el - clientHeight el \<le> scrollTop el + v \<longrightarrow>
        element (auto_elapse (due - now s) s)
          = Some (el\<lparr>scrollTop := scrollHeight el - clientHeight el\<rparr>)
        \<and> scrollTop el \<le> scrollHeight el - clientHeight el
        \<and> timers (auto_elapse (due - now s) s) = []
        \<and> \<not> isAutoScrolling (auto_elapse (due - now s) s)
        \<and> \<not> autoScrollActive (auto_elapse (due - now s) s)
        \<and> (\<forall>d. element (auto_elapse d (auto_elapse (due - now s) s))
                 = element (auto_elapse (due - now s) s)))
   \<and> (enabled s \<longrightarrow>
        handleMouseMove s = handleUserInteraction s
        \<and> \<not> isAutoScrolling (handleUserInteraction s)
        \<and> (\<forall>d. d < idleDelay s \<longrightarrow>
               element (auto_elapse d (handleUserInteraction s)) = Some el
               \<and> \<not> isAutoScrolling (auto_elapse d (handleUserInteraction s)))
        \<and> (0 < idleDelay s \<longrightarrow>
               driver_running (scrollSpeed s) (now s + idleDelay s + 50)
                 (auto_elapse (idleDelay s) (handleUserInteraction s))))"
proof -
  from assms(1) obtain i el' where r: "timers s = [(i, due, ScrollTick v)]"
    "autoScrollIntervalRef s = Some i" "isAutoScrolling s" "autoScrollActive s" "now s < due"
    "element s = Some el'" "0 \<le> scrollTop el'" "scrollTop el' \<le> scrollHeight el' - clientHeight el'"
    by (rule driver_runningD)
  with assms(3) have el: "el' = el" by simp
  have quiet: "\<forall>d. d < due - now s \<longrightarrow> element (auto_elapse d s) = Some el"
    using between_ticks [OF assms(1)] assms(3) by simp
  have cont: "scrollTop el + v < scrollHeight el - clientHeight el \<longrightarrow>
        element (auto_elapse (due - now s) s) = Some (el\<lparr>scrollTop := scrollTop el + v\<rparr>)
        \<and> driver_running v (due + 50) (auto_elapse (due - now s) s)"
    using tick_continues [OF assms] by blast
  have bottom: "scrollHeight el - clientHeight el \<le> scrollTop el + v \<longrightarrow>
        element (auto_elapse (due - now s) s)
          = Some (el\<lparr>scrollTop := scrollHeight el - clientHeight el\<rparr>)
        \<and> scrollTop el \<le> scrollHeight el - clientHeight el
        \<and> timers (auto_elapse (due - now s) s) = []
        \<and> \<not> isAutoScrolling (auto_elapse (due - now s) s)
        \<and> \<not> autoScrollActive (auto_elapse (due - now s) s)
        \<and> (\<forall>d. element (auto_elapse d (auto_elapse (due - now s) s))
                 = element (auto_elapse (due - now s) s))"
  proof
    assume b: "scrollHeight el - clientHeight el \<le> scrollTop el + v"
    have e: "auto_elapse (due - now s) s
         = s\<lparr>now := due, element := Some (el\<lparr>scrollTop := scrollHeight el - clientHeight el\<rparr>),
             autoScrollActive := False, isAutoScrolling := False, timers := [],
             autoScrollIntervalRef := None\<rparr>"
      using assms b by (rule tick_reaches_bottom)
    have t0: "timers (auto_elapse (due - now s) s) = []" by (simp add: e)
    show "element (auto_elapse (due - now s) s)
          = Some (el\<lparr>scrollTop := scrollHeight el - clientHeight el\<rparr>)
        \<and> scrollTop el \<le> scrollHeight el - clientHeight el
        \<and> timers (auto_elapse (due - now s) s) = []
        \<and> \<not> isAutoScrolling (auto_elapse (due - now s) s)
        \<and> \<not> autoScrollActive (auto_elapse (due - now s) s)
        \<and> (\<forall>d. element (auto_elapse d (auto_elapse (due - now s) s))
                 = element (auto_elapse (due - now s) s))"
      using r(8) el stopped_stays(1) [OF t0] by (simp add: e)
  qed
  have inter: "enabled s \<longrightarrow>
        handleMouseMove s = handleUserInteraction s
        \<and> \<not> isAutoScrolling (handleUserInteraction s)
        \<and> (\<forall>d. d < idleDelay s \<longrightarrow>
               element (auto_elapse d (handleUserInteraction s)) = Some el
               \<and> \<not> isAutoScrolling (auto_elapse d (handleUserInteraction s)))
        \<and> (0 < idleDelay s \<longrightarrow>
               driver_running (scrollSpeed s) (now s + idleDelay s + 50)
                 (auto_elapse (idleDelay s) (handleUserInteraction s)))"
  proof
    assume en: "enabled s"
    let ?u = "handleUserInteraction s"
    have u: "?u = s\<lparr>autoScrollActive := False, isAutoScrolling := False,
             autoScrollIntervalRef := None,
             timers := [(next_timer_id s, now s + idleDelay s, MouseIdle True (scrollSpeed s))],
             next_timer_id := Suc (next_timer_id s),
             mouseIdleTimeoutRef := Some (next_timer_id s)\<rparr>"
      using assms(1) en by (rule interaction_stops)
    have mm: "handleMouseMove s = ?u"
      using r(3) by (simp add: handleMouseMove_def handleUserInteraction_def)
    have q: "auto_elapse d ?u = ?u\<lparr>now := now ?u + d\<rparr>" if "d < idleDelay s" for d
      using that by (intro auto_elapse_quiet) (simp add: u)
    have restart: "driver_running (scrollSpeed s) (now s + idleDelay s + 50)
                 (auto_elapse (idleDelay s) ?u)" if "0 < idleDelay s"
    proof -
      have "driver_running (scrollSpeed s) (now s + idleDelay s + 50)
              (auto_elapse (now s + idleDelay s - now ?u) ?u)"
        by (rule idle_restart(1) [where i = "next_timer_id s" and el = el])
           (use that r(7,8) el assms(3) in \<open>simp_all add: u\<close>)
      then show ?thesis by (simp add: u)
    qed
    show "handleMouseMove s = ?u
        \<and> \<not> isAutoScrolling ?u
        \<and> (\<forall>d. d < idleDelay s \<longrightarrow>
               element (auto_elapse d ?u) = Some el \<and> \<not> isAutoScrolling (auto_elapse d ?u))
        \<and> (0 < idleDelay s \<longrightarrow>
               driver_running (scrollSpeed s) (now s + idleDelay s + 50)
                 (auto_elapse (idleDelay s) ?u))"
      using mm restart q assms(3) by (simp add: u)
  qed
  from quiet cont bottom inter show ?thesis by blast
qed

text \<open>
  A driver mounted with speed 3 and idle delay 5000 on an element that can scroll by 4:
  it starts after 5000 ms, moves to 3 at the first tick and to the bottom, 4, at the second,
  where it stops.
\<close>

definition demo_element :: scroll_element where
  "demo_element = \<lparr>scrollTop = 0, clientHeight = 600, scrollHeight = 604\<rparr>"

definition demo_mounted :: auto_scroll where
  "demo_mounted = auto_mount True 3 5000 (Some demo_element) 0"

definition demo_running :: auto_scroll where
  "demo_running = auto_elapse 5000 demo_mounted"

lemma demo_mounted_eq:
  "demo_mounted =
     \<lparr>enabled = True, scrollSpeed = 3, idleDelay = 5000, autoScrollActive = False,
      isAutoScrolling = False, autoScrollIntervalRef = None, mouseIdleTimeoutRef = Some 1,
      element = Some demo_element, timers = [(1, 5000, MouseIdle True 3)], next_timer_id = 2,
      now = 0, dep_enabled = True, dep_scrollSpeed = 3, dep_idleDelay = 5000\<rparr>"
  by (simp add: demo_mounted_def auto_mount_def idle_effect_def disable_effect_def
      startMouseIdleTimer_def clear_timer_def Let_def split_def)

lemma demo_running_eq:
  "demo_running =
     \<lparr>enabled = True, scrollSpeed = 3, idleDelay = 5000, autoScrollActive = True,
      isAutoScrolling = True, autoScrollIntervalRef = Some 2, mouseIdleTimeoutRef = Some 1,
      element = Some demo_element, timers = [(2, 5050, ScrollTick 3)], next_timer_id = 3,
      now = 5000, dep_enabled = True, dep_scrollSpeed = 3, dep_idleDelay = 5000\<rparr>"
proof -
  have "auto_elapse (5000 - now demo_mounted) demo_mounted
        = auto_fire_timer 1 (demo_mounted\<lparr>now := 5000\<rparr>)"
    by (rule auto_elapse_to_single_timer) (simp_all add: demo_mounted_eq)
  then show ?thesis
    by (simp add: demo_running_def demo_mounted_eq auto_fire_timer_def mouse_idle_timeout_def
        startAutoScroll_def clear_timer_def Let_def split_def)
qed

lemma demo_running_running: "driver_running 3 5050 demo_running"
  by (simp add: demo_running_eq driver_running_def demo_element_def)

theorem auto_scroll_tick_progress_witness:
  "driver_running 3 5050 demo_running
   \<and> element demo_running = Some demo_element
   \<and> element (auto_elapse 49 demo_running) = Some demo_element
   \<and> element (auto_elapse 50 demo_running) = Some (demo_element\<lparr>scrollTop := 3\<rparr>)
   \<and> driver_running 3 5100 (auto_elapse 50 demo_running)
   \<and> element (auto_elapse 50 (auto_elapse 50 demo_running)) = Some (demo_element\<lparr>scrollTop := 4\<rparr>)
   \<and> timers (auto_elapse 50 (auto_elapse 50 demo_running)) = []
   \<and> element (auto_elapse 4999 (handleUserInteraction (auto_elapse 50 demo_running)))
       = Some (demo_element\<lparr>scrollTop := 3\<rparr>)
   \<and> driver_running 3 10100 (auto_elapse 5000 (handleUserInteraction (auto_elapse 50 demo_running)))"
proof -
  have el: "element demo_running = Some demo_element" "now demo_running = 5000"
    "enabled demo_running" "idleDelay demo_running = 5000" "scrollSpeed demo_running = 3"
    by (simp_all add: demo_running_eq)
  have first: "element (auto_elapse 49 demo_running) = Some demo_element"
    "element (auto_elapse 50 demo_running) = Some (demo_element\<lparr>scrollTop := 3\<rparr>)"
    "driver_running 3 5100 (auto_elapse 50 demo_running)"
    using auto_scroll_tick_progress [OF demo_running_running _ el(1)] el
    by (simp_all add: demo_element_def)
  have e50: "auto_elapse 50 demo_running
             = demo_running\<lparr>now := 5050, element := Some (demo_element\<lparr>scrollTop := 3\<rparr>),
                 timers := [(2, 5100, ScrollTick 3)]\<rparr>"
  proof -
    have "auto_elapse (5050 - now demo_running) demo_running
          = auto_fire_timer 2 (demo_running\<lparr>now := 5050\<rparr>)"
      by (rule auto_elapse_to_single_timer) (simp_all add: demo_running_eq)
    then show ?thesis
      by (simp add: demo_running_eq auto_fire_timer_def scroll_tick_def set_scrollTop_def Let_def
          demo_element_def)
  qed
  have f2: "now (auto_elapse 50 demo_running) = 5050" "enabled (auto_elapse 50 demo_running)"
    "idleDelay (auto_elapse 50 demo_running) = 5000" "scrollSpeed (auto_elapse 50 demo_running) = 3"
    unfolding e50 by (simp_all add: demo_running_eq)
  have second: "element (auto_elapse 50 (auto_elapse 50 demo_running)) = Some (demo_element\<lparr>scrollTop := 4\<rparr>)"
    "timers (auto_elapse 50 (auto_elapse 50 demo_running)) = []"
    "element (auto_elapse 4999 (handleUserInteraction (auto_elapse 50 demo_running)))
       = Some (demo_element\<lparr>scrollTop := 3\<rparr>)"
    "driver_running 3 10100 (auto_elapse 5000 (handleUserInteraction (auto_elapse 50 demo_running)))"
    using auto_scroll_tick_progress [OF first(3) _ first(2)] f2
    by (simp_all add: demo_element_def)
  from demo_running_running el(1) first second show ?thesis by simp
qed


lemma startMouseIdleTimer_fields [simp]:
  "enabled (startMouseIdleTimer s) = enabled s"
  "element (startMouseIdleTimer s) = element s"
  by (simp_all add: startMouseIdleTimer_def Let_def split_def)

lemma auto_commit_fields:
  "enabled (auto_commit s) = enabled s"
  "element (auto_commit s) = element s"
  by (simp_all add: auto_commit_def Let_def idle_effect_def disable_effect_def)

text \<open>
  C8. In every reachable state, setting \<open>enabled\<close> to false leaves no timer pending (neither
  the scroll interval nor the mouse-idle timeout), clears \<open>isAutoScrolling\<close> and
  \<open>autoScrollActive\<close>, and leaves the scroll position where it is for all time to come; and
  in every reachable state in which \<open>enabled\<close> is false no timer is pending.
\<close>

theorem disable_clears_timers:
  assumes "auto_reachable s"
  shows "timers (auto_step s (SetEnabled False)) = []
   \<and> \<not> isAutoScrolling (auto_step s (SetEnabled False))
   \<and> \<not> autoScrollActive (auto_step s (SetEnabled False))
   \<and> element (auto_step s (SetEnabled False)) = element s
   \<and> (\<forall>d. timers (auto_elapse d (auto_step s (SetEnabled False))) = []
          \<and> element (auto_elapse d (auto_step s (SetEnabled False))) = element s)
   \<and> (\<not> enabled s \<longrightarrow> timers s = [] \<and> \<not> isAutoScrolling s \<and> \<not> autoScrollActive s)"
proof -
  let ?s = "auto_step s (SetEnabled False)"
  have inv: "auto_inv s" using assms by (rule auto_reachable_inv)
  then have inv': "auto_inv ?s" by (rule auto_step_inv)
  have off: "\<not> enabled ?s" by (simp add: auto_commit_fields)
  have el: "element ?s = element s" by (simp add: auto_commit_fields)
  from inv' off have t0: "timers ?s = []" and f: "\<not> isAutoScrolling ?s" "\<not> autoScrollActive ?s"
    by (auto simp: auto_inv_def)
  have later: "\<forall>d. timers (auto_elapse d ?s) = [] \<and> element (auto_elapse d ?s) = element s"
    using stopped_stays(1,2) [OF t0] el by simp
  have dis: "\<not> enabled s \<longrightarrow> timers s = [] \<and> \<not> isAutoScrolling s \<and> \<not> autoScrollActive s"
    using inv by (auto simp: auto_inv_def)
  from t0 f el later dis show ?thesis by blast
qed

lemma demo_reachable: "auto_reachable demo_mounted" "auto_reachable demo_running"
proof -
  show m: "auto_reachable demo_mounted"
    unfolding demo_mounted_def by (rule auto_reachable_mount)
  have "auto_reachable (auto_step demo_mounted (AutoElapse 5000))"
    using m by (rule auto_reachable_step)
  then show "auto_reachable demo_running" by (simp add: demo_running_def)
qed

theorem disable_clears_timers_witness:
  "auto_reachable demo_running
   \<and> timers demo_running = [(2, 5050, ScrollTick 3)]
   \<and> timers (auto_step demo_running (SetEnabled False)) = []
   \<and> \<not> isAutoScrolling (auto_step demo_running (SetEnabled False))
   \<and> element (auto_elapse 1000 (auto_step demo_running (SetEnabled False))) = Some demo_element
   \<and> auto_reachable demo_mounted
   \<and> timers demo_mounted = [(1, 5000, MouseIdle True 3)]
   \<and> timers (auto_step demo_mounted (SetEnabled False)) = []"
  using disable_clears_timers [OF demo_reachable(1)] disable_clears_timers [OF demo_reachable(2)]
    demo_reachable
  by (simp add: demo_running_eq demo_mounted_eq)

subsection \<open>A change of the scroll speed while the driver runs\<close>

text \<open>
  \<open>startAutoScroll\<close> closes over \<open>scrollSpeed\<close>, so a new speed gives a new
  \<open>startMouseIdleTimer\<close>, and the effect on \<open>[enabled, startMouseIdleTimer]\<close> runs again. Its
  cleanup clears the interval but leaves \<open>isAutoScrolling.current\<close> set; the effect starts the
  idle timer, whose callback calls \<open>startAutoScroll\<close>, which returns at once because the flag
  is set. No tick is pending any more and none is ever scheduled.
\<close>

fun is_tick :: "timer \<Rightarrow> bool" where
  "is_tick (i, due, ScrollTick v) = True"
| "is_tick (i, due, MouseIdle c v) = False"

definition stalled :: "auto_scroll \<Rightarrow> bool" where
  "stalled s = (isAutoScrolling s \<and> autoScrollActive s \<and> list_all (\<lambda>t. \<not> is_tick t) (timers s))"

lemma auto_fire_timer_stalled:
  assumes "stalled s"
  shows "stalled (auto_fire_timer i s)" "element (auto_fire_timer i s) = element s"
    "enabled (auto_fire_timer i s) = enabled s"
proof -
  have f: "isAutoScrolling s" "autoScrollActive s" and nt: "\<forall>t\<in>set (timers s). \<not> is_tick t"
    using assms by (simp_all add: stalled_def list_all_iff)
  have "stalled (auto_fire_timer i s) \<and> element (auto_fire_timer i s) = element s
      \<and> enabled (auto_fire_timer i s) = enabled s"
  proof (cases "map_of (timers s) i")
    case None
    with assms show ?thesis by (simp add: auto_fire_timer_def)
  next
    case (Some dk)
    obtain due k where dk: "dk = (due, k)" by (cases dk)
    have "(i, due, k) \<in> set (timers s)"
      using Some dk by (simp add: map_of_SomeD)
    with nt have "\<not> is_tick (i, due, k)" by blast
    then obtain c v where k: "k = MouseIdle c v"
      by (cases k) simp_all
    have "auto_fire_timer i s = clear_timer (Some i) s"
      using Some dk k f by (simp add: auto_fire_timer_def mouse_idle_timeout_def startAutoScroll_def)
    then show ?thesis
      using f nt by (simp add: stalled_def list_all_iff clear_timer_timers)
  qed
  then show "stalled (auto_fire_timer i s)" "element (auto_fire_timer i s) = element s"
    "enabled (auto_fire_timer i s) = enabled s"
    by simp_all
qed

lemma auto_fire_timers_stalled:
  assumes "stalled s"
  shows "stalled (auto_fire_timers is s) \<and> element (auto_fire_timers is s) = element s
    \<and> enabled (auto_fire_timers is s) = enabled s"
  using assms
proof (induction "is" arbitrary: s)
  case Nil
  then show ?case by simp
next
  case (Cons i "is")
  from auto_fire_timer_stalled [OF Cons.prems, of i] Cons.IH [of "auto_fire_timer i s"]
  show ?case by simp
qed

lemma auto_millisecond_stalled:
  assumes "stalled s"
  shows "stalled (auto_millisecond s) \<and> element (auto_millisecond s) = element s
    \<and> enabled (auto_millisecond s) = enabled s"
proof -
  have "stalled (s\<lparr>now := Suc (now s)\<rparr>)"
    using assms by (simp add: stalled_def)
  from auto_fire_timers_stalled [OF this] show ?thesis
    by (simp add: auto_millisecond_def Let_def)
qed

lemma auto_elapse_stalled:
  assumes "stalled s"
  shows "stalled (auto_elapse d s) \<and> element (auto_elapse d s) = element s
    \<and> enabled (auto_elapse d s) = enabled s"
  using assms
proof (induction d arbitrary: s)
  case 0
  then show ?case by simp
next
  case (Suc d)
  from auto_millisecond_stalled [OF Suc.prems] Suc.IH [of "auto_millisecond s"]
  show ?case by simp
qed

lemma speed_change_stalled:
  assumes "auto_inv s" and "enabled s" and "isAutoScrolling s" and "v \<noteq> scrollSpeed s"
  shows "stalled (auto_step s (SetScrollSpeed v))"
    "element (auto_step s (SetScrollSpeed v)) = element s"
    "enabled (auto_step s (SetScrollSpeed v))"
proof -
  let ?x = "s\<lparr>scrollSpeed := v\<rparr>"
  let ?c = "idle_effect_cleanup ?x"
  have deps: "dep_enabled s = enabled s" "dep_scrollSpeed s = scrollSpeed s"
    and act: "autoScrollActive s" and tr: "list_all (timer_tracked s) (timers s)"
    using assms(1,3) by (simp_all add: auto_inv_def)
  have "list_all (timer_tracked ?x) (timers ?x)"
    using tr tracked_cong [of ?x s] by (simp add: list_all_iff)
  then have t0: "timers ?c = []"
    by (rule idle_effect_cleanup_timers)
  have c: "auto_step s (SetScrollSpeed v)
      = (startMouseIdleTimer ?c)\<lparr>dep_enabled := enabled s, dep_scrollSpeed := v,
          dep_idleDelay := idleDelay s\<rparr>"
    using assms(2,4) deps by (simp add: auto_commit_def Let_def idle_effect_def)
  have m: "timers (startMouseIdleTimer ?c)
      = [(next_timer_id ?c, now ?c + idleDelay ?c, MouseIdle True v)]"
    "isAutoScrolling (startMouseIdleTimer ?c) = isAutoScrolling s"
    "autoScrollActive (startMouseIdleTimer ?c) = autoScrollActive s"
    using assms(2) t0
    by (simp_all add: startMouseIdleTimer_def Let_def split_def clear_timer_def
        split: option.splits)
  show "stalled (auto_step s (SetScrollSpeed v))"
    unfolding c using m assms(3) act by (simp add: stalled_def)
  show "element (auto_step s (SetScrollSpeed v)) = element s"
    by (simp add: auto_commit_fields)
  show "enabled (auto_step s (SetScrollSpeed v))"
    using assms(2) by (simp add: auto_commit_fields)
qed

text \<open>
  C7, as the code has it. In a reachable state in which auto-scroll is enabled and the
  driver has started (\<open>isAutoScrolling\<close> is set), let the scroll speed be changed. From then on,
  for every duration without a user interaction, the scroll position stays where it was,
  whether or not the bottom has been reached, while \<open>isAutoScrolling\<close> and
  \<open>autoScrollActive\<close> stay set and auto-scroll stays enabled: \<open>scrollTop\<close> does not increase on
  the following ticks.
\<close>

theorem speed_change_stalls_driver:
  assumes "auto_reachable s" and "enabled s" and "isAutoScrolling s" and "v \<noteq> scrollSpeed s"
  shows "element (auto_elapse d (auto_step s (SetScrollSpeed v))) = element s
    \<and> isAutoScrolling (auto_elapse d (auto_step s (SetScrollSpeed v)))
    \<and> autoScrollActive (auto_elapse d (auto_step s (SetScrollSpeed v)))
    \<and> enabled (auto_elapse d (auto_step s (SetScrollSpeed v)))
    \<and> list_all (\<lambda>t. \<not> is_tick t) (timers (auto_elapse d (auto_step s (SetScrollSpeed v))))"
proof -
  have inv: "auto_inv s"
    using assms(1) by (rule auto_reachable_inv)
  note c = speed_change_stalled [OF inv assms(2-4)]
  from auto_elapse_stalled [OF c(1), of d] c(2,3) show ?thesis
    by (simp add: stalled_def)
qed

text \<open>
  The driver of the example, running with speed 3 at position 0 of a range of 4: left alone
  it is at 3 after the next tick; when the speed is set to 5 instead, it is still at 0 an
  hour later, with the indicator \<open>autoScrollActive\<close> on.
\<close>

theorem speed_change_stalls_driver_witness:
  "auto_reachable demo_running \<and> enabled demo_running \<and> isAutoScrolling demo_running
   \<and> scrollSpeed demo_running = 3
   \<and> element demo_running = Some \<lparr>scrollTop = 0, clientHeight = 600, scrollHeight = 604\<rparr>
   \<and> element (auto_elapse 50 demo_running)
       = Some \<lparr>scrollTop = 3, clientHeight = 600, scrollHeight = 604\<rparr>
   \<and> element (auto_elapse 3600000 (auto_step demo_running (SetScrollSpeed 5)))
       = Some \<lparr>scrollTop = 0, clientHeight = 600, scrollHeight = 604\<rparr>
   \<and> isAutoScrolling (auto_elapse 3600000 (auto_step demo_running (SetScrollSpeed 5)))
   \<and> autoScrollActive (auto_elapse 3600000 (auto_step demo_running (SetScrollSpeed 5)))"
proof -
  have r: "enabled demo_running" "isAutoScrolling demo_running" "scrollSpeed demo_running = 3"
    "element demo_running = Some demo_element" "now demo_running = 5000"
    by (simp_all add: demo_running_eq)
  have "(5::real) \<noteq> scrollSpeed demo_running"
    by (simp add: r(3))
  note s = speed_change_stalls_driver [OF demo_reachable(2) r(1,2) this, of 3600000]
  have "element (auto_elapse (5050 - now demo_running) demo_running)
      = Some (demo_element\<lparr>scrollTop := scrollTop demo_element + 3\<rparr>)"
    by (rule tick_continues(1) [OF demo_running_running _ r(4)]) (simp_all add: demo_element_def)
  then have t: "element (auto_elapse 50 demo_running)
      = Some \<lparr>scrollTop = 3, clientHeight = 600, scrollHeight = 604\<rparr>"
    by (simp add: r(5) demo_element_def)
  from s t r demo_reachable(2) show ?thesis
    by (simp add: demo_element_def)
qed

section \<open>VideoItem: the load, unload and playback lifecycle of one video\<close>

text \<open>
  \<open>src/components/VideoItem.jsx\<close>. The component is modelled with its four state variables,
  the refs and the media element it drives, and a table of pending timers. A timer carries
  the values its callback has captured from the render that scheduled it: the load timeout
  \<open>isLoading\<close> and \<open>isLoaded\<close>, the unload timer \<open>inLoadView\<close>.
\<close>

datatype video_timer =
  LoadTimeout bool bool
  | UnloadTimer bool

text \<open>The values a render reads; the closures of its effects see exactly these.\<close>

record render =
  r_inLoadView :: bool
  r_inPlayView :: bool
  r_ratio :: real
  r_autoplay :: bool
  r_videoUrl :: string
  r_isLoaded :: bool
  r_isFailed :: bool
  r_isLoading :: bool
  r_isPlaying :: bool

text \<open>
  State variables (\<open>isLoaded\<close> \<dots> \<open>loadingError\<close>), refs (\<open>srcRef\<close>, the timeout stored on the
  element as \<open>_loadTimeout\<close>, the timer the cleanup of the unload effect will clear), the
  media element (\<open>el_src\<close> is \<open>None\<close> without a \<open>src\<close>; \<open>el_loading\<close> while a \<open>load()\<close> has not
  reported; \<open>play_pending\<close> after \<open>play()\<close> until its \<open>play\<close> event), the props and observer
  values, the timer table with its clock, and the values of the last committed render.
\<close>

record video_item =
  isLoaded :: bool
  isPlaying :: bool
  isFailed :: bool
  isLoading :: bool
  loadingError :: "string option"
  srcRef :: string
  el_src :: "string option"
  el_paused :: bool
  el_loading :: bool
  play_pending :: bool
  el_loadTimeout :: "nat option"
  unload_cleanup :: "nat option"
  videoUrl :: string
  inLoadView :: bool
  inPlayView :: bool
  intersectionRatio :: real
  autoplay :: bool
  highlightMode :: bool
  pending :: "(nat \<times> nat \<times> video_timer) list"
  next_id :: nat
  clock :: nat
  deps :: render

definition render_of :: "video_item \<Rightarrow> render" where
  "render_of s =
     \<lparr>r_inLoadView = inLoadView s, r_inPlayView = inPlayView s, r_ratio = intersectionRatio s,
      r_autoplay = autoplay s, r_videoUrl = videoUrl s, r_isLoaded = isLoaded s,
      r_isFailed = isFailed s, r_isLoading = isLoading s, r_isPlaying = isPlaying s\<rparr>"

definition clearTimeout :: "nat option \<Rightarrow> video_item \<Rightarrow> video_item" where
  "clearTimeout r s =
     (case r of
        None \<Rightarrow> s
      | Some i \<Rightarrow> s\<lparr>pending := filter (\<lambda>t. fst t \<noteq> i) (pending s)\<rparr>)"

definition setTimeout :: "video_timer \<Rightarrow> nat \<Rightarrow> video_item \<Rightarrow> video_item" where
  "setTimeout k delay s =
     s\<lparr>pending := pending s @ [(next_id s, clock s + delay, k)], next_id := Suc (next_id s)\<rparr>"

subsection \<open>The media element\<close>

definition el_pause :: "video_item \<Rightarrow> video_item" where
  "el_pause s = s\<lparr>el_paused := True, play_pending := False\<rparr>"

definition el_play :: "video_item \<Rightarrow> video_item" where
  "el_play s = s\<lparr>el_paused := False, play_pending := True\<rparr>"

definition el_remove_src :: "video_item \<Rightarrow> video_item" where
  "el_remove_src s = s\<lparr>el_src := None, el_loading := False\<rparr>"

definition el_load :: "video_item \<Rightarrow> video_item" where
  "el_load s = s\<lparr>el_loading := True, el_paused := True, play_pending := False\<rparr>"

subsection \<open>Callbacks\<close>

definition loadVideo :: "render \<Rightarrow> video_item \<Rightarrow> video_item" where
  "loadVideo r s =
     (if r_isLoading r \<or> r_isLoaded r then s
      else
        (let s1 = s\<lparr>isLoading := True, isFailed := False, loadingError := None\<rparr>;
             s2 = (if el_src s1 = None \<or> srcRef s1 \<noteq> r_videoUrl r
                   then s1\<lparr>el_src := Some (r_videoUrl r), srcRef := r_videoUrl r\<rparr> else s1);
             s3 = el_load s2;
             s4 = setTimeout (LoadTimeout (r_isLoading r) (r_isLoaded r)) 10000 s3
         in s4\<lparr>el_loadTimeout := Some (next_id s3)\<rparr>))"

definition loadTimeout :: "bool \<Rightarrow> bool \<Rightarrow> video_item \<Rightarrow> video_item" where
  "loadTimeout c_isLoading c_isLoaded s =
     (if c_isLoading \<and> \<not> c_isLoaded
      then s\<lparr>isLoading := False, isFailed := True, loadingError := Some ''Load timeout''\<rparr>
      else s)"

definition handleError :: "video_item \<Rightarrow> video_item" where
  "handleError s =
     (if el_src s = None then s
      else
        (let s1 = (clearTimeout (el_loadTimeout s) s)\<lparr>el_loadTimeout := None\<rparr>
         in s1\<lparr>loadingError := Some ''Media error'', isFailed := True, isLoading := False\<rparr>))"

definition handleLoadedMetadata :: "video_item \<Rightarrow> video_item" where
  "handleLoadedMetadata s =
     (if el_src s = None then s
      else
        (let s1 = (clearTimeout (el_loadTimeout s) s)\<lparr>el_loadTimeout := None\<rparr>
         in s1\<lparr>isLoaded := True, isLoading := False, isFailed := False,
               loadingError := None\<rparr>))"

definition unloadTimer :: "bool \<Rightarrow> video_item \<Rightarrow> video_item" where
  "unloadTimer c_inLoadView s =
     (if \<not> c_inLoadView
      then
        (let s1 = (if \<not> el_paused s then (el_pause s)\<lparr>isPlaying := False\<rparr> else s);
             s2 = el_remove_src s1
         in s2\<lparr>isLoaded := False, isFailed := False, loadingError := None,
               isLoading := False\<rparr>)
      else s)"

definition handleClick :: "video_item \<Rightarrow> video_item" where
  "handleClick s =
     (if \<not> isLoaded s then s
      else if highlightMode s then s
      else if el_paused s then el_play s
      else (el_pause s)\<lparr>isPlaying := False\<rparr>)"

subsection \<open>Effects\<close>

definition load_effect :: "render \<Rightarrow> video_item \<Rightarrow> video_item" where
  "load_effect r s =
     (if r_inLoadView r \<and> \<not> r_isLoaded r \<and> \<not> r_isFailed r then loadVideo r s else s)"

definition reset_effect :: "render \<Rightarrow> video_item \<Rightarrow> video_item" where
  "reset_effect r s =
     (if srcRef s \<noteq> [] \<and> srcRef s \<noteq> r_videoUrl r
      then
        (let s1 = s\<lparr>isLoaded := False, isFailed := False, isLoading := False,
                    loadingError := None\<rparr>;
             s2 = (if \<not> el_paused s1 then el_pause s1 else s1)
         in el_remove_src s2)
      else s)"

definition unload_effect :: "render \<Rightarrow> video_item \<Rightarrow> video_item" where
  "unload_effect r s =
     (if \<not> r_inLoadView r \<and> (r_isLoaded r \<or> r_isLoading r)
      then (setTimeout (UnloadTimer (r_inLoadView r)) 1000 s)\<lparr>unload_cleanup := Some (next_id s)\<rparr>
      else s\<lparr>unload_cleanup := None\<rparr>)"

definition unload_effect_cleanup :: "video_item \<Rightarrow> video_item" where
  "unload_effect_cleanup s = clearTimeout (unload_cleanup s) s"

definition autoplay_effect :: "render \<Rightarrow> video_item \<Rightarrow> video_item" where
  "autoplay_effect r s =
     (if \<not> r_isLoaded r \<or> r_isFailed r then s
      else if r_autoplay r \<and> r_inPlayView r \<and> 0.1 < r_ratio r \<and> \<not> r_isPlaying r
      then el_play s
      else if \<not> r_inPlayView r \<and> r_isPlaying r
      then (el_pause s)\<lparr>isPlaying := False\<rparr>
      else s)"

definition load_deps :: "render \<Rightarrow> bool \<times> bool \<times> bool \<times> string \<times> bool" where
  "load_deps r = (r_inLoadView r, r_isLoaded r, r_isFailed r, r_videoUrl r, r_isLoading r)"

definition reset_deps :: "render \<Rightarrow> string" where
  "reset_deps r = r_videoUrl r"

definition unload_deps :: "render \<Rightarrow> bool \<times> bool \<times> bool" where
  "unload_deps r = (r_inLoadView r, r_isLoaded r, r_isLoading r)"

definition autoplay_deps :: "render \<Rightarrow> bool \<times> real \<times> bool \<times> bool \<times> bool \<times> bool" where
  "autoplay_deps r =
     (r_inPlayView r, r_ratio r, r_autoplay r, r_isLoaded r, r_isFailed r, r_isPlaying r)"

text \<open>An effect runs after a render only when one of its dependencies has changed.\<close>

definition run_effect :: "bool \<Rightarrow> (video_item \<Rightarrow> video_item) \<Rightarrow> video_item \<Rightarrow> video_item" where
  "run_effect changed f s = (if changed then f s else s)"

text \<open>
  One render and its effects: first the cleanup of every effect that is about to run again
  (only the unload effect has one), then the effects in source order, each with the values
  \<open>r\<close> of this render; the dependencies of the render are remembered.
\<close>

definition commit :: "video_item \<Rightarrow> video_item" where
  "commit s =
     (let r = render_of s; p = deps s;
          s0 = run_effect (unload_deps r \<noteq> unload_deps p) unload_effect_cleanup s;
          s1 = run_effect (load_deps r \<noteq> load_deps p) (load_effect r) s0;
          s2 = run_effect (reset_deps r \<noteq> reset_deps p) (reset_effect r) s1;
          s3 = run_effect (unload_deps r \<noteq> unload_deps p) (unload_effect r) s2;
          s4 = run_effect (autoplay_deps r \<noteq> autoplay_deps p) (autoplay_effect r) s3
      in s4\<lparr>deps := r\<rparr>)"

definition stable :: "video_item \<Rightarrow> bool" where
  "stable s = (render_of s = deps s)"

definition settle_measure :: "video_item \<Rightarrow> nat" where
  "settle_measure s =
     (if videoUrl s = r_videoUrl (deps s) then 0 else 8)
     + (if isLoading s then 0 else 2) + (if isPlaying s then 2 else 0)
     + (if stable s then 0 else 1)"

subsection \<open>What the effects leave alone\<close>

lemma setTimeout_fields [simp]:
  "isLoaded (setTimeout k d s) = isLoaded s"
  "isPlaying (setTimeout k d s) = isPlaying s"
  "isFailed (setTimeout k d s) = isFailed s"
  "isLoading (setTimeout k d s) = isLoading s"
  "loadingError (setTimeout k d s) = loadingError s"
  "srcRef (setTimeout k d s) = srcRef s"
  "el_src (setTimeout k d s) = el_src s"
  "el_paused (setTimeout k d s) = el_paused s"
  "el_loading (setTimeout k d s) = el_loading s"
  "play_pending (setTimeout k d s) = play_pending s"
  "el_loadTimeout (setTimeout k d s) = el_loadTimeout s"
  "unload_cleanup (setTimeout k d s) = unload_cleanup s"
  "videoUrl (setTimeout k d s) = videoUrl s"
  "inLoadView (setTimeout k d s) = inLoadView s"
  "inPlayView (setTimeout k d s) = inPlayView s"
  "intersectionRatio (setTimeout k d s) = intersectionRatio s"
  "autoplay (setTimeout k d s) = autoplay s"
  "highlightMode (setTimeout k d s) = highlightMode s"
  "clock (setTimeout k d s) = clock s"
  "deps (setTimeout k d s) = deps s"
  "next_id (setTimeout k d s) = Suc (next_id s)"
  "pending (setTimeout k d s) = pending s @ [(next_id s, clock s + d, k)]"
  by (simp_all add: setTimeout_def)

lemma clearTimeout_fields [simp]:
  "isLoaded (clearTimeout i s) = isLoaded s"
  "isPlaying (clearTimeout i s) = isPlaying s"
  "isFailed (clearTimeout i s) = isFailed s"
  "isLoading (clearTimeout i s) = isLoading s"
  "loadingError (clearTimeout i s) = loadingError s"
  "srcRef (clearTimeout i s) = srcRef s"
  "el_src (clearTimeout i s) = el_src s"
  "el_paused (clearTimeout i s) = el_paused s"
  "el_loading (clearTimeout i s) = el_loading s"
  "play_pending (clearTimeout i s) = play_pending s"
  "el_loadTimeout (clearTimeout i s) = el_loadTimeout s"
  "unload_cleanup (clearTimeout i s) = unload_cleanup s"
  "videoUrl (clearTimeout i s) = videoUrl s"
  "inLoadView (clearTimeout i s) = inLoadView s"
  "inPlayView (clearTimeout i s) = inPlayView s"
  "intersectionRatio (clearTimeout i s) = intersectionRatio s"
  "autoplay (clearTimeout i s) = autoplay s"
  "highlightMode (clearTimeout i s) = highlightMode s"
  "clock (clearTimeout i s) = clock s"
  "deps (clearTimeout i s) = deps s"
  "next_id (clearTimeout i s) = next_id s"
  by (simp_all add: clearTimeout_def split: option.splits)

lemma clearTimeout_pending:
  "pending (clearTimeout r s) =
     (case r of None \<Rightarrow> pending s | Some i \<Rightarrow> filter (\<lambda>t. fst t \<noteq> i) (pending s))"
  by (simp add: clearTimeout_def split: option.splits)

lemma render_of_simps [simp]:
  "r_inLoadView (render_of s) = inLoadView s" "r_inPlayView (render_of s) = inPlayView s"
  "r_ratio (render_of s) = intersectionRatio s" "r_autoplay (render_of s) = autoplay s"
  "r_videoUrl (render_of s) = videoUrl s" "r_isLoaded (render_of s) = isLoaded s"
  "r_isFailed (render_of s) = isFailed s" "r_isLoading (render_of s) = isLoading s"
  "r_isPlaying (render_of s) = isPlaying s"
  by (simp_all add: render_of_def)

lemma load_effect_props [simp]:
  "videoUrl (load_effect r s) = videoUrl s" "inLoadView (load_effect r s) = inLoadView s"
  "inPlayView (load_effect r s) = inPlayView s"
  "intersectionRatio (load_effect r s) = intersectionRatio s"
  "autoplay (load_effect r s) = autoplay s" "highlightMode (load_effect r s) = highlightMode s"
  "isPlaying (load_effect r s) = isPlaying s" "isLoaded (load_effect r s) = isLoaded s"
  "clock (load_effect r s) = clock s" "deps (load_effect r s) = deps s"
  "unload_cleanup (load_effect r s) = unload_cleanup s"
  by (simp_all add: load_effect_def loadVideo_def Let_def el_load_def)

lemma reset_effect_props [simp]:
  "videoUrl (reset_effect r s) = videoUrl s" "inLoadView (reset_effect r s) = inLoadView s"
  "inPlayView (reset_effect r s) = inPlayView s"
  "intersectionRatio (reset_effect r s) = intersectionRatio s"
  "autoplay (reset_effect r s) = autoplay s" "highlightMode (reset_effect r s) = highlightMode s"
  "isPlaying (reset_effect r s) = isPlaying s"
  "clock (reset_effect r s) = clock s" "deps (reset_effect r s) = deps s"
  "pending (reset_effect r s) = pending s" "next_id (reset_effect r s) = next_id s"
  "unload_cleanup (reset_effect r s) = unload_cleanup s"
  "el_loadTimeout (reset_effect r s) = el_loadTimeout s"
  "srcRef (reset_effect r s) = srcRef s"
  by (simp_all add: reset_effect_def Let_def el_pause_def el_remove_src_def)

lemma unload_effect_props [simp]:
  "videoUrl (unload_effect r s) = videoUrl s" "inLoadView (unload_effect r s) = inLoadView s"
  "inPlayView (unload_effect r s) = inPlayView s"
  "intersectionRatio (unload_effect r s) = intersectionRatio s"
  "autoplay (unload_effect r s) = autoplay s" "highlightMode (unload_effect r s) = highlightMode s"
  "isPlaying (unload_effect r s) = isPlaying s" "isLoaded (unload_effect r s) = isLoaded s"
  "isLoading (unload_effect r s) = isLoading s" "isFailed (unload_effect r s) = isFailed s"
  "loadingError (unload_effect r s) = loadingError s"
  "srcRef (unload_effect r s) = srcRef s" "el_src (unload_effect r s) = el_src s"
  "el_paused (unload_effect r s) = el_paused s" "el_loading (unload_effect r s) = el_loading s"
  "play_pending (unload_effect r s) = play_pending s"
  "el_loadTimeout (unload_effect r s) = el_loadTimeout s"
  "clock (unload_effect r s) = clock s" "deps (unload_effect r s) = deps s"
  by (simp_all add: unload_effect_def)

lemma unload_effect_cleanup_props [simp]:
  "videoUrl (unload_effect_cleanup s) = videoUrl s"
  "inLoadView (unload_effect_cleanup s) = inLoadView s"
  "inPlayView (unload_effect_cleanup s) = inPlayView s"
  "intersectionRatio (unload_effect_cleanup s) = intersectionRatio s"
  "autoplay (unload_effect_cleanup s) = autoplay s"
  "highlightMode (unload_effect_cleanup s) = highlightMode s"
  "isPlaying (unload_effect_cleanup s) = isPlaying s"
  "isLoaded (unload_effect_cleanup s) = isLoaded s"
  "isLoading (unload_effect_cleanup s) = isLoading s"
  "isFailed (unload_effect_cleanup s) = isFailed s"
  "loadingError (unload_effect_cleanup s) = loadingError s"
  "srcRef (unload_effect_cleanup s) = srcRef s" "el_src (unload_effect_cleanup s) = el_src s"
  "el_paused (unload_effect_cleanup s) = el_paused s"
  "el_loading (unload_effect_cleanup s) = el_loading s"
  "play_pending (unload_effect_cleanup s) = play_pending s"
  "el_loadTimeout (unload_effect_cleanup s) = el_loadTimeout s"
  "unload_cleanup (unload_effect_cleanup s) = unload_cleanup s"
  "clock (unload_effect_cleanup s) = clock s" "deps (unload_effect_cleanup s) = deps s"
  "next_id (unload_effect_cleanup s) = next_id s"
  by (simp_all add: unload_effect_cleanup_def)

lemma autoplay_effect_props [simp]:
  "videoUrl (autoplay_effect r s) = videoUrl s"
  "inLoadView (autoplay_effect r s) = inLoadView s"
  "inPlayView (autoplay_effect r s) = inPlayView s"
  "intersectionRatio (autoplay_effect r s) = intersectionRatio s"
  "autoplay (autoplay_effect r s) = autoplay s"
  "highlightMode (autoplay_effect r s) = highlightMode s"
  "isLoaded (autoplay_effect r s) = isLoaded s"
  "isLoading (autoplay_effect r s) = isLoading s" "isFailed (autoplay_effect r s) = isFailed s"
  "loadingError (autoplay_effect r s) = loadingError s"
  "srcRef (autoplay_effect r s) = srcRef s" "el_src (autoplay_effect r s) = el_src s"
  "el_loading (autoplay_effect r s) = el_loading s"
  "el_loadTimeout (autoplay_effect r s) = el_loadTimeout s"
  "unload_cleanup (autoplay_effect r s) = unload_cleanup s"
  "pending (autoplay_effect r s) = pending s" "next_id (autoplay_effect r s) = next_id s"
  "clock (autoplay_effect r s) = clock s" "deps (autoplay_effect r s) = deps s"
  by (simp_all add: autoplay_effect_def el_pause_def el_play_def)

lemma run_effect_fields [simp]:
  "isLoaded (run_effect c f s) = (if c then isLoaded (f s) else isLoaded s)"
  "isPlaying (run_effect c f s) = (if c then isPlaying (f s) else isPlaying s)"
  "isFailed (run_effect c f s) = (if c then isFailed (f s) else isFailed s)"
  "isLoading (run_effect c f s) = (if c then isLoading (f s) else isLoading s)"
  "loadingError (run_effect c f s) = (if c then loadingError (f s) else loadingError s)"
  "srcRef (run_effect c f s) = (if c then srcRef (f s) else srcRef s)"
  "el_src (run_effect c f s) = (if c then el_src (f s) else el_src s)"
  "el_paused (run_effect c f s) = (if c then el_paused (f s) else el_paused s)"
  "el_loading (run_effect c f s) = (if c then el_loading (f s) else el_loading s)"
  "play_pending (run_effect c f s) = (if c then play_pending (f s) else play_pending s)"
  "el_loadTimeout (run_effect c f s) = (if c then el_loadTimeout (f s) else el_loadTimeout s)"
  "unload_cleanup (run_effect c f s) = (if c then unload_cleanup (f s) else unload_cleanup s)"
  "videoUrl (run_effect c f s) = (if c then videoUrl (f s) else videoUrl s)"
  "inLoadView (run_effect c f s) = (if c then inLoadView (f s) else inLoadView s)"
  "inPlayView (run_effect c f s) = (if c then inPlayView (f s) else inPlayView s)"
  "intersectionRatio (run_effect c f s)
     = (if c then intersectionRatio (f s) else intersectionRatio s)"
  "autoplay (run_effect c f s) = (if c then autoplay (f s) else autoplay s)"
  "highlightMode (run_effect c f s) = (if c then highlightMode (f s) else highlightMode s)"
  "pending (run_effect c f s) = (if c then pending (f s) else pending s)"
  "next_id (run_effect c f s) = (if c then next_id (f s) else next_id s)"
  "clock (run_effect c f s) = (if c then clock (f s) else clock s)"
  "deps (run_effect c f s) = (if c then deps (f s) else deps s)"
  by (simp_all add: run_effect_def)

lemma run_effect_cases:
  assumes "\<not> c \<Longrightarrow> P s" and "c \<Longrightarrow> P (f s)"
  shows "P (run_effect c f s)"
  using assms by (simp add: run_effect_def)

lemma run_effect_inv:
  assumes "P s" and "P s \<Longrightarrow> P (f s)"
  shows "P (run_effect c f s)"
  using assms by (simp add: run_effect_def)

lemma commit_props:
  "videoUrl (commit s) = videoUrl s" "inLoadView (commit s) = inLoadView s"
  "inPlayView (commit s) = inPlayView s" "intersectionRatio (commit s) = intersectionRatio s"
  "autoplay (commit s) = autoplay s" "highlightMode (commit s) = highlightMode s"
  "clock (commit s) = clock s" "deps (commit s) = render_of s"
  by (simp_all add: commit_def Let_def)

text \<open>A render never sets \<open>isPlaying\<close>: the effects only request playback or pause.\<close>

lemma autoplay_effect_isPlaying: "isPlaying (autoplay_effect r s) \<Longrightarrow> isPlaying s"
  by (simp add: autoplay_effect_def el_pause_def el_play_def split: if_splits)

lemma commit_isPlaying:
  assumes "isPlaying (commit s)"
  shows "isPlaying s"
proof -
  let ?r = "render_of s"
  define s3 where "s3 =
    run_effect (unload_deps ?r \<noteq> unload_deps (deps s)) (unload_effect ?r)
     (run_effect (reset_deps ?r \<noteq> reset_deps (deps s)) (reset_effect ?r)
       (run_effect (load_deps ?r \<noteq> load_deps (deps s)) (load_effect ?r)
         (run_effect (unload_deps ?r \<noteq> unload_deps (deps s)) unload_effect_cleanup s)))"
  have p3: "isPlaying s3 = isPlaying s" by (simp add: s3_def)
  have "isPlaying (run_effect (autoplay_deps ?r \<noteq> autoplay_deps (deps s)) (autoplay_effect ?r) s3)"
    using assms by (simp add: commit_def Let_def s3_def)
  then have "isPlaying s3"
    by (auto simp: run_effect_def split: if_splits dest: autoplay_effect_isPlaying)
  with p3 show ?thesis by simp
qed

text \<open>
  Without a change of URL the reset effect does not run, and then a render changes the
  state variables only by starting a load or by pausing.
\<close>

lemma load_effect_flags:
  "isLoading s \<Longrightarrow> isLoading (load_effect r s)"
  "r_isFailed r = isFailed s \<Longrightarrow> isFailed (load_effect r s) = isFailed s"
  by (simp_all add: load_effect_def loadVideo_def Let_def el_load_def)

lemma commit_same_url:
  assumes "videoUrl s = r_videoUrl (deps s)"
  shows "isLoaded (commit s) = isLoaded s" "isFailed (commit s) = isFailed s"
    "isLoading s \<Longrightarrow> isLoading (commit s)"
proof -
  have nr: "reset_deps (render_of s) = reset_deps (deps s)"
    using assms by (simp add: reset_deps_def)
  show "isLoaded (commit s) = isLoaded s"
    using nr by (simp add: commit_def Let_def)
  show "isFailed (commit s) = isFailed s"
    using nr by (simp add: commit_def Let_def load_effect_flags(2))
  show "isLoading s \<Longrightarrow> isLoading (commit s)"
    using nr by (simp add: commit_def Let_def load_effect_flags(1))
qed

lemma settle_measure_decreases:
  assumes "\<not> stable s"
  shows "settle_measure (commit s) < settle_measure s"
proof (cases "videoUrl s = r_videoUrl (deps s)")
  case False
  have "r_videoUrl (deps (commit s)) = videoUrl (commit s)"
    by (simp add: commit_props)
  moreover have "isPlaying (commit s) \<longrightarrow> isPlaying s"
    using commit_isPlaying by blast
  ultimately show ?thesis
    using False assms by (simp add: settle_measure_def)
next
  case True
  have u: "r_videoUrl (deps (commit s)) = videoUrl (commit s)"
    by (simp add: commit_props)
  have pl: "isPlaying (commit s) \<longrightarrow> isPlaying s"
    using commit_isPlaying by blast
  have ld: "isLoading s \<longrightarrow> isLoading (commit s)"
    using commit_same_url(3) [OF True] by blast
  have st: "stable (commit s)"
    if "isPlaying (commit s) = isPlaying s" "isLoading (commit s) = isLoading s"
  proof -
    have "isLoaded (commit s) = isLoaded s" "isFailed (commit s) = isFailed s"
      using commit_same_url(1,2) [OF True] by auto
    then show ?thesis
      using that by (simp add: stable_def commit_props render_of_def)
  qed
  show ?thesis
  proof (cases "isPlaying (commit s) = isPlaying s \<and> isLoading (commit s) = isLoading s")
    case True
    with st have "stable (commit s)" by simp
    with True u \<open>videoUrl s = r_videoUrl (deps s)\<close> assms show ?thesis
      by (simp add: settle_measure_def)
  next
    case False
    with pl ld u \<open>videoUrl s = r_videoUrl (deps s)\<close> assms show ?thesis
      by (auto simp: settle_measure_def)
  qed
qed

text \<open>
  A state change made by an effect causes another render. The renders come to an end: the
  measure \<open>settle_measure\<close> decreases with every render of a state that is not stable.
\<close>

function settle :: "video_item \<Rightarrow> video_item" where
  "settle s = (if stable s then s else settle (commit s))"
  by pat_completeness auto
termination
  by (relation "measure settle_measure") (simp_all add: settle_measure_decreases)

declare settle.simps [simp del]

lemma settle_stable [simp]: "stable s \<Longrightarrow> settle s = s"
  by (subst settle.simps) simp

lemma settle_unstable: "\<not> stable s \<Longrightarrow> settle s = settle (commit s)"
  by (subst settle.simps) simp

lemma stable_settle: "stable (settle s)"
  by (induction s rule: settle.induct) (subst settle.simps, simp)

subsection \<open>Events\<close>

text \<open>
  What can happen to the component: the two intersection observers report (the play observer
  with the intersection ratio of its entry), the parent passes another file name or other
  settings, the element fires \<open>loadedmetadata\<close> (the listener is registered once per load),
  \<open>error\<close> (ignored by the handler when the element has no source), \<open>play\<close> (after a call of
  \<open>play()\<close>) or \<open>pause\<close>, the user clicks, or time passes. After an event the component
  renders and runs its effects until no state variable changes (\<open>settle\<close>). A timer that is
  due runs its callback once and leaves the table; time advances in milliseconds.
\<close>

datatype video_event =
  SetInLoadView bool
  | SetInPlayView bool real
  | SetVideoUrl string
  | SetAutoplay bool
  | SetHighlightMode bool
  | MediaLoadedMetadata
  | MediaError
  | MediaPlay
  | MediaPause
  | Click
  | Elapse nat

definition timer_callback :: "video_timer \<Rightarrow> video_item \<Rightarrow> video_item" where
  "timer_callback k s =
     (case k of
        LoadTimeout c_isLoading c_isLoaded \<Rightarrow> loadTimeout c_isLoading c_isLoaded s
      | UnloadTimer c_inLoadView \<Rightarrow> unloadTimer c_inLoadView s)"

definition fire_timer :: "nat \<Rightarrow> video_item \<Rightarrow> video_item" where
  "fire_timer i s =
     (case map_of (pending s) i of
        None \<Rightarrow> s
      | Some (due, k) \<Rightarrow> settle (timer_callback k (clearTimeout (Some i) s)))"

fun fire_timers :: "nat list \<Rightarrow> video_item \<Rightarrow> video_item" where
  "fire_timers [] s = s"
| "fire_timers (i # is) s = fire_timers is (fire_timer i s)"

definition millisecond :: "video_item \<Rightarrow> video_item" where
  "millisecond s =
     (let s1 = s\<lparr>clock := Suc (clock s)\<rparr>
      in fire_timers (map fst (filter (\<lambda>t. fst (snd t) \<le> clock s1) (pending s1))) s1)"

fun elapse :: "nat \<Rightarrow> video_item \<Rightarrow> video_item" where
  "elapse 0 s = s"
| "elapse (Suc d) s = elapse d (millisecond s)"

fun handle :: "video_item \<Rightarrow> video_event \<Rightarrow> video_item" where
  "handle s (SetInLoadView b) = s\<lparr>inLoadView := b\<rparr>"
| "handle s (SetInPlayView b ratio) = s\<lparr>inPlayView := b, intersectionRatio := ratio\<rparr>"
| "handle s (SetVideoUrl u) = s\<lparr>videoUrl := u\<rparr>"
| "handle s (SetAutoplay b) = s\<lparr>autoplay := b\<rparr>"
| "handle s (SetHighlightMode b) = s\<lparr>highlightMode := b\<rparr>"
| "handle s MediaLoadedMetadata =
     (if el_loading s then handleLoadedMetadata (s\<lparr>el_loading := False\<rparr>) else s)"
| "handle s MediaError =
     (if el_src s \<noteq> None then handleError (s\<lparr>el_loading := False\<rparr>) else s)"
| "handle s MediaPlay =
     (if play_pending s then s\<lparr>play_pending := False, isPlaying := True\<rparr> else s)"
| "handle s MediaPause = (el_pause s)\<lparr>isPlaying := False\<rparr>"
| "handle s Click = handleClick s"
| "handle s (Elapse d) = s"

fun step :: "video_item \<Rightarrow> video_event \<Rightarrow> video_item" where
  "step s (Elapse d) = elapse d s"
| "step s e = settle (handle s e)"

definition video_mount :: "string \<Rightarrow> bool \<Rightarrow> bool \<Rightarrow> nat \<Rightarrow> video_item" where
  "video_mount url auto highlight t =
     \<lparr>isLoaded = False, isPlaying = False, isFailed = False, isLoading = False,
      loadingError = None, srcRef = [], el_src = None, el_paused = True, el_loading = False,
      play_pending = False, el_loadTimeout = None, unload_cleanup = None, videoUrl = url,
      inLoadView = False, inPlayView = False, intersectionRatio = 0, autoplay = auto,
      highlightMode = highlight, pending = [], next_id = 1, clock = t,
      deps = \<lparr>r_inLoadView = False, r_inPlayView = False, r_ratio = 0, r_autoplay = auto,
              r_videoUrl = url, r_isLoaded = False, r_isFailed = False, r_isLoading = False,
              r_isPlaying = False\<rparr>\<rparr>"

fun event_ok :: "video_event \<Rightarrow> bool" where
  "event_ok (SetVideoUrl u) = (u \<noteq> [])"
| "event_ok _ = True"

inductive reachable :: "video_item \<Rightarrow> bool" where
  reachable_mount: "url \<noteq> [] \<Longrightarrow> reachable (video_mount url auto highlight t)"
| reachable_step: "reachable s \<Longrightarrow> event_ok e \<Longrightarrow> reachable (step s e)"

definition run :: "video_item \<Rightarrow> video_event list \<Rightarrow> video_item" where
  "run s es = foldl step s es"


subsection \<open>Invariants\<close>

text \<open>
  Pending timers. A load timeout has captured \<open>isLoading = false\<close> and \<open>isLoaded = false\<close>
  (the guard of \<open>loadVideo\<close>); an unload timer has captured \<open>inLoadView = false\<close>, is the one
  the cleanup of the unload effect will clear, and was scheduled by a render \<open>p\<close> that was out
  of the load window with the video loaded or loading.
\<close>

fun timer_ok :: "render \<Rightarrow> video_item \<Rightarrow> nat \<times> nat \<times> video_timer \<Rightarrow> bool" where
  "timer_ok p s (i, due, LoadTimeout c_isLoading c_isLoaded) =
     (\<not> c_isLoading \<and> \<not> c_isLoaded \<and> unload_cleanup s \<noteq> Some i)"
| "timer_ok p s (i, due, UnloadTimer c_inLoadView) =
     (\<not> c_inLoadView \<and> unload_cleanup s = Some i \<and> el_loadTimeout s \<noteq> Some i
      \<and> \<not> r_inLoadView p \<and> (r_isLoaded p \<or> r_isLoading p))"

fun is_unload :: "nat \<times> nat \<times> video_timer \<Rightarrow> bool" where
  "is_unload (i, due, UnloadTimer c) = True"
| "is_unload (i, due, LoadTimeout a b) = False"

definition ref_fresh :: "nat option \<Rightarrow> video_item \<Rightarrow> bool" where
  "ref_fresh r s = (r = None \<or> the r < next_id s)"

definition timers_inv :: "render \<Rightarrow> video_item \<Rightarrow> bool" where
  "timers_inv p s =
     (list_all (timer_ok p s) (pending s)
      \<and> distinct (map fst (pending s))
      \<and> list_all (\<lambda>t. fst t < next_id s) (pending s)
      \<and> ref_fresh (el_loadTimeout s) s \<and> ref_fresh (unload_cleanup s) s)"

definition no_unload :: "video_item \<Rightarrow> bool" where
  "no_unload s = list_all (\<lambda>t. \<not> is_unload t) (pending s)"

text \<open>
  The element and the flags. \<open>u\<close> is the URL of the last committed render: while the video
  is loaded, loading or failed, the element carries that URL.
\<close>

definition element_inv :: "string \<Rightarrow> video_item \<Rightarrow> bool" where
  "element_inv u s =
     ((isLoading s \<or> \<not> el_loading s)
      \<and> (\<not> isLoading s \<or> \<not> isFailed s)
      \<and> (el_src s = None \<or> el_src s = Some (srcRef s))
      \<and> videoUrl s \<noteq> [] \<and> u \<noteq> []
      \<and> ((\<not> isLoaded s \<and> \<not> isLoading s \<and> \<not> isFailed s \<and> el_src s = None)
           \<or> ((isLoaded s \<or> isLoading s \<or> isFailed s)
               \<and> el_src s = Some (srcRef s) \<and> srcRef s = u)))"

text \<open>
  Playback. Once the autoplay effect has run for the current values of its dependencies,
  a loaded, not failed video that is playing is in the play window.
\<close>

definition playing_ok :: "video_item \<Rightarrow> bool" where
  "playing_ok s = (\<not> isPlaying s \<or> \<not> isLoaded s \<or> isFailed s \<or> inPlayView s)"

definition playing_inv :: "video_item \<Rightarrow> bool" where
  "playing_inv s = (autoplay_deps (render_of s) \<noteq> autoplay_deps (deps s) \<or> playing_ok s)"

definition pre_inv :: "video_item \<Rightarrow> bool" where
  "pre_inv s = (timers_inv (deps s) s \<and> element_inv (r_videoUrl (deps s)) s \<and> playing_inv s)"

definition video_inv :: "video_item \<Rightarrow> bool" where
  "video_inv s = (stable s \<and> pre_inv s)"

lemma timer_ok_cong:
  assumes "unload_cleanup s' = unload_cleanup s" "el_loadTimeout s' = el_loadTimeout s"
  shows "timer_ok p s' t = timer_ok p s t"
  using assms by (cases "(p, s, t)" rule: timer_ok.cases) simp_all

lemma timer_ok_render:
  assumes "unload_deps q = unload_deps p"
  shows "timer_ok q s t = timer_ok p s t"
  using assms by (cases "(p, s, t)" rule: timer_ok.cases) (simp_all add: unload_deps_def)

lemma timers_inv_render:
  "unload_deps q = unload_deps p \<Longrightarrow> timers_inv q s = timers_inv p s"
  by (simp add: timers_inv_def timer_ok_render [of q p] list_all_iff)

lemma timers_inv_no_unload:
  assumes "timers_inv p s" and "no_unload s"
  shows "timers_inv q s"
proof -
  have "timer_ok q s t" if "t \<in> set (pending s)" for t
  proof -
    from that assms have "timer_ok p s t" "\<not> is_unload t"
      by (simp_all add: timers_inv_def no_unload_def list_all_iff)
    then show ?thesis
      by (cases "(p, s, t)" rule: timer_ok.cases) simp_all
  qed
  with assms(1) show ?thesis by (simp add: timers_inv_def list_all_iff)
qed

text \<open>The cleanup of the unload effect removes every unload timer.\<close>

lemma unload_effect_cleanup_inv:
  assumes "timers_inv p s"
  shows "timers_inv p (unload_effect_cleanup s)" "no_unload (unload_effect_cleanup s)"
proof -
  let ?s = "unload_effect_cleanup s"
  have sub: "set (pending ?s) \<subseteq> set (pending s)"
    by (auto simp: unload_effect_cleanup_def clearTimeout_pending split: option.splits)
  have ok: "timer_ok p ?s t = timer_ok p s t" for t
    by (rule timer_ok_cong) simp_all
  have d: "distinct (map fst (pending ?s))"
    using assms
    by (auto simp: unload_effect_cleanup_def clearTimeout_pending timers_inv_def
        distinct_map_filter split: option.splits)
  show "timers_inv p ?s"
    using assms sub d
    by (auto simp: timers_inv_def list_all_iff ok ref_fresh_def split: option.splits)
  show "no_unload ?s"
  proof -
    have "\<not> is_unload t" if "t \<in> set (pending ?s)" for t
    proof
      assume u: "is_unload t"
      from that sub assms have "timer_ok p s t" by (auto simp: timers_inv_def list_all_iff)
      with u have "unload_cleanup s = Some (fst t)"
        by (cases "(p, s, t)" rule: timer_ok.cases) simp_all
      with that show False
        by (simp add: unload_effect_cleanup_def clearTimeout_pending)
    qed
    then show ?thesis by (simp add: no_unload_def list_all_iff)
  qed
qed

lemma loadVideo_start:
  assumes "\<not> r_isLoading r" "\<not> r_isLoaded r"
  shows "pending (loadVideo r s) = pending s @ [(next_id s, clock s + 10000, LoadTimeout False False)]"
    "next_id (loadVideo r s) = Suc (next_id s)"
    "el_loadTimeout (loadVideo r s) = Some (next_id s)"
    "unload_cleanup (loadVideo r s) = unload_cleanup s"
    "isLoading (loadVideo r s)" "\<not> isFailed (loadVideo r s)"
    "isLoaded (loadVideo r s) = isLoaded s"
    "srcRef (loadVideo r s) = r_videoUrl r" "el_src (loadVideo r s) = (if el_src s = None \<or> srcRef s \<noteq> r_videoUrl r then Some (r_videoUrl r) else el_src s)"
    "el_loading (loadVideo r s)" "el_paused (loadVideo r s)" "\<not> play_pending (loadVideo r s)"
    "loadingError (loadVideo r s) = None"
  using assms by (auto simp: loadVideo_def Let_def el_load_def setTimeout_def)

lemma loadVideo_skip: "r_isLoading r \<or> r_isLoaded r \<Longrightarrow> loadVideo r s = s"
  by (simp add: loadVideo_def)

lemma loadVideo_timers_inv:
  assumes "timers_inv p s"
  shows "timers_inv p (loadVideo r s)"
proof (cases "r_isLoading r \<or> r_isLoaded r")
  case True
  then show ?thesis using assms by (simp add: loadVideo_skip)
next
  case False
  then have g: "\<not> r_isLoading r" "\<not> r_isLoaded r" by simp_all
  let ?s = "loadVideo r s"
  have old: "timer_ok p s t" "fst t < next_id s" if "t \<in> set (pending s)" for t
    using assms that by (simp_all add: timers_inv_def list_all_iff)
  have keep: "timer_ok p ?s t" if "t \<in> set (pending s)" for t
    using old [OF that] loadVideo_start(3,4) [OF g, of s]
    by (cases "(p, s, t)" rule: timer_ok.cases) auto
  have fresh: "next_id s \<notin> fst ` set (pending s)"
  proof
    assume "next_id s \<in> fst ` set (pending s)"
    then obtain t where "t \<in> set (pending s)" "fst t = next_id s" by auto
    with old(2) [of t] show False by simp
  qed
  have cl: "unload_cleanup s \<noteq> Some (next_id s)"
    using assms by (auto simp: timers_inv_def ref_fresh_def)
  have new: "timer_ok p ?s (next_id s, clock s + 10000, LoadTimeout False False)"
    using cl by (simp add: loadVideo_start(4) [OF g])
  have 1: "list_all (timer_ok p ?s) (pending ?s)"
    using keep new by (simp add: loadVideo_start(1) [OF g] list_all_iff)
  have 2: "distinct (map fst (pending ?s))"
    using assms fresh by (simp add: loadVideo_start(1) [OF g] timers_inv_def)
  have 3: "list_all (\<lambda>t. fst t < next_id ?s) (pending ?s)"
    using old(2) by (auto simp: loadVideo_start(1,2) [OF g] list_all_iff less_Suc_eq)
  have 4: "ref_fresh (el_loadTimeout ?s) ?s" "ref_fresh (unload_cleanup ?s) ?s"
    using assms
    by (auto simp: loadVideo_start(2,3,4) [OF g] ref_fresh_def timers_inv_def
        split: option.splits)
  from 1 2 3 4 show ?thesis by (simp add: timers_inv_def)
qed

lemma load_effect_timers_inv: "timers_inv p s \<Longrightarrow> timers_inv p (load_effect r s)"
  by (simp add: load_effect_def loadVideo_timers_inv)

lemma loadVideo_no_unload: "no_unload s \<Longrightarrow> no_unload (loadVideo r s)"
  by (cases "r_isLoading r \<or> r_isLoaded r")
     (auto simp: loadVideo_skip loadVideo_start(1) no_unload_def)

lemma load_effect_no_unload: "no_unload s \<Longrightarrow> no_unload (load_effect r s)"
  by (simp add: load_effect_def loadVideo_no_unload)

lemma reset_effect_timers_inv: "timers_inv p s \<Longrightarrow> timers_inv p (reset_effect r s)"
  by (simp add: timers_inv_def list_all_iff ref_fresh_def
      timer_ok_cong [of "reset_effect r s" s])

lemma reset_effect_no_unload: "no_unload s \<Longrightarrow> no_unload (reset_effect r s)"
  by (simp add: no_unload_def)

lemma autoplay_effect_timers_inv: "timers_inv p s \<Longrightarrow> timers_inv p (autoplay_effect r s)"
  by (simp add: timers_inv_def list_all_iff ref_fresh_def
      timer_ok_cong [of "autoplay_effect r s" s])

lemma unload_effect_timers_inv:
  assumes "timers_inv p s" and "no_unload s"
  shows "timers_inv r (unload_effect r s)"
proof (cases "\<not> r_inLoadView r \<and> (r_isLoaded r \<or> r_isLoading r)")
  case False
  let ?s = "s\<lparr>unload_cleanup := None\<rparr>"
  have "timer_ok r ?s t" if "t \<in> set (pending s)" for t
  proof -
    from that assms have "timer_ok p s t" "\<not> is_unload t"
      by (simp_all add: timers_inv_def no_unload_def list_all_iff)
    then show ?thesis by (cases "(p, s, t)" rule: timer_ok.cases) simp_all
  qed
  then show ?thesis
    using False assms(1)
    by (auto simp: unload_effect_def timers_inv_def list_all_iff ref_fresh_def
        split: option.splits)
next
  case True
  let ?s = "unload_effect r s"
  have e: "pending ?s = pending s @ [(next_id s, clock s + 1000, UnloadTimer False)]"
    "next_id ?s = Suc (next_id s)" "unload_cleanup ?s = Some (next_id s)"
    "el_loadTimeout ?s = el_loadTimeout s"
    using True by (auto simp: unload_effect_def)
  have old: "timer_ok p s t" "fst t < next_id s" "\<not> is_unload t"
    if "t \<in> set (pending s)" for t
    using assms that by (simp_all add: timers_inv_def no_unload_def list_all_iff)
  have keep: "timer_ok r ?s t" if "t \<in> set (pending s)" for t
    using old [OF that] e(3)
    by (cases "(p, s, t)" rule: timer_ok.cases) auto
  have fresh: "next_id s \<notin> fst ` set (pending s)"
  proof
    assume "next_id s \<in> fst ` set (pending s)"
    then obtain t where "t \<in> set (pending s)" "fst t = next_id s" by auto
    with old(2) [of t] show False by simp
  qed
  have lt: "el_loadTimeout s \<noteq> Some (next_id s)"
    using assms(1) by (auto simp: timers_inv_def ref_fresh_def)
  have new: "timer_ok r ?s (next_id s, clock s + 1000, UnloadTimer False)"
    using True lt by (simp add: e)
  have 1: "list_all (timer_ok r ?s) (pending ?s)"
    using keep new by (simp add: e(1) list_all_iff)
  have 2: "distinct (map fst (pending ?s))"
    using assms(1) fresh by (simp add: e(1) timers_inv_def)
  have 3: "list_all (\<lambda>t. fst t < next_id ?s) (pending ?s)"
    using old(2) by (auto simp: e(1,2) list_all_iff less_Suc_eq)
  have 4: "ref_fresh (el_loadTimeout ?s) ?s" "ref_fresh (unload_cleanup ?s) ?s"
    using assms(1)
    by (auto simp: e ref_fresh_def timers_inv_def split: option.splits)
  from 1 2 3 4 show ?thesis by (simp add: timers_inv_def)
qed

lemma set_deps_timers_inv: "timers_inv p (s\<lparr>deps := r\<rparr>) = timers_inv p s"
  by (simp add: timers_inv_def list_all_iff ref_fresh_def
      timer_ok_cong [of "s\<lparr>deps := r\<rparr>" s])

lemma set_deps_no_unload: "no_unload (s\<lparr>deps := r\<rparr>) = no_unload s"
  by (simp add: no_unload_def)

lemma commit_timers_inv:
  assumes "timers_inv (deps s) s"
  shows "timers_inv (deps (commit s)) (commit s)"
proof -
  let ?r = "render_of s"
  let ?p = "deps s"
  define s0 where "s0 = run_effect (unload_deps ?r \<noteq> unload_deps ?p) unload_effect_cleanup s"
  define s1 where "s1 = run_effect (load_deps ?r \<noteq> load_deps ?p) (load_effect ?r) s0"
  define s2 where "s2 = run_effect (reset_deps ?r \<noteq> reset_deps ?p) (reset_effect ?r) s1"
  define s3 where "s3 = run_effect (unload_deps ?r \<noteq> unload_deps ?p) (unload_effect ?r) s2"
  define s4 where "s4 = run_effect (autoplay_deps ?r \<noteq> autoplay_deps ?p) (autoplay_effect ?r) s3"
  have c: "commit s = s4\<lparr>deps := ?r\<rparr>"
    by (simp add: commit_def Let_def s4_def s3_def s2_def s1_def s0_def)
  have t0: "timers_inv ?p s0"
    unfolding s0_def using assms
    by (rule run_effect_inv) (rule unload_effect_cleanup_inv)
  have t1: "timers_inv ?p s1"
    unfolding s1_def using t0 by (rule run_effect_inv) (rule load_effect_timers_inv)
  have t2: "timers_inv ?p s2"
    unfolding s2_def using t1 by (rule run_effect_inv) (rule reset_effect_timers_inv)
  have t3: "timers_inv ?r s3"
  proof (cases "unload_deps ?r = unload_deps ?p")
    case True
    then have "s3 = s2" by (simp add: s3_def run_effect_def)
    with t2 timers_inv_render [OF True] show ?thesis by simp
  next
    case False
    then have "no_unload s0"
      using unload_effect_cleanup_inv(2) [OF assms] by (simp add: s0_def run_effect_def)
    then have "no_unload s1"
      unfolding s1_def by (rule run_effect_inv) (rule load_effect_no_unload)
    then have "no_unload s2"
      unfolding s2_def by (rule run_effect_inv) (rule reset_effect_no_unload)
    with t2 have "timers_inv ?r (unload_effect ?r s2)"
      by (rule unload_effect_timers_inv)
    with False show ?thesis by (simp add: s3_def run_effect_def)
  qed
  have t4: "timers_inv ?r s4"
    unfolding s4_def using t3 by (rule run_effect_inv) (rule autoplay_effect_timers_inv)
  then show ?thesis
    by (simp add: c set_deps_timers_inv)
qed

lemma element_inv_cong:
  assumes "isLoaded s' = isLoaded s" "isLoading s' = isLoading s" "isFailed s' = isFailed s"
    "el_src s' = el_src s" "srcRef s' = srcRef s" "el_loading s' = el_loading s"
    "videoUrl s' = videoUrl s"
  shows "element_inv u s' = element_inv u s"
  using assms by (simp add: element_inv_def)

lemma load_effect_element_inv:
  assumes "element_inv u s" and "r_videoUrl r = videoUrl s"
    and "r_isLoaded r = isLoaded s" "r_isFailed r = isFailed s" "r_isLoading r = isLoading s"
    and "u = videoUrl s \<or> \<not> (r_inLoadView r \<and> \<not> r_isLoaded r \<and> \<not> r_isFailed r \<and> \<not> r_isLoading r)"
  shows "element_inv u (load_effect r s)"
  using assms
  by (auto simp: load_effect_def loadVideo_def Let_def el_load_def element_inv_def)

lemma load_reset_element_inv:
  assumes "element_inv u s" and "r_videoUrl r = videoUrl s" and "u \<noteq> videoUrl s"
    and "r_isLoaded r = isLoaded s" "r_isFailed r = isFailed s" "r_isLoading r = isLoading s"
  shows "element_inv (videoUrl s) (reset_effect r (load_effect r s))"
  using assms
  by (auto simp: load_effect_def loadVideo_def reset_effect_def Let_def el_load_def
      el_pause_def el_remove_src_def element_inv_def)

lemma commit_element_inv:
  assumes "element_inv (r_videoUrl (deps s)) s"
  shows "element_inv (r_videoUrl (deps (commit s))) (commit s)"
proof -
  let ?r = "render_of s"
  let ?p = "deps s"
  define s0 where "s0 = run_effect (unload_deps ?r \<noteq> unload_deps ?p) unload_effect_cleanup s"
  define s1 where "s1 = run_effect (load_deps ?r \<noteq> load_deps ?p) (load_effect ?r) s0"
  define s2 where "s2 = run_effect (reset_deps ?r \<noteq> reset_deps ?p) (reset_effect ?r) s1"
  define s3 where "s3 = run_effect (unload_deps ?r \<noteq> unload_deps ?p) (unload_effect ?r) s2"
  define s4 where "s4 = run_effect (autoplay_deps ?r \<noteq> autoplay_deps ?p) (autoplay_effect ?r) s3"
  have c: "commit s = s4\<lparr>deps := ?r\<rparr>"
    by (simp add: commit_def Let_def s4_def s3_def s2_def s1_def s0_def)
  have e0: "element_inv (r_videoUrl ?p) s0"
    using assms element_inv_cong [of s0 s] by (simp add: s0_def)
  have f0: "r_videoUrl ?r = videoUrl s0" "r_isLoaded ?r = isLoaded s0"
    "r_isFailed ?r = isFailed s0" "r_isLoading ?r = isLoading s0" "videoUrl s0 = videoUrl s"
    by (simp_all add: s0_def)
  have e2: "element_inv (videoUrl s) s2"
  proof (cases "videoUrl s = r_videoUrl ?p")
    case True
    have "element_inv (videoUrl s) (load_effect ?r s0)"
      using e0 f0 True by (intro load_effect_element_inv) simp_all
    then have "element_inv (videoUrl s) s1"
      using e0 True by (simp add: s1_def run_effect_def)
    then show ?thesis
      using True by (simp add: s2_def run_effect_def reset_deps_def)
  next
    case False
    then have l: "load_deps ?r \<noteq> load_deps ?p"
      by (auto simp: load_deps_def)
    have "element_inv (videoUrl s0) (reset_effect ?r (load_effect ?r s0))"
      using e0 f0 False by (intro load_reset_element_inv) auto
    then show ?thesis
      using False l f0(5) by (simp add: s2_def s1_def run_effect_def reset_deps_def)
  qed
  have e3: "element_inv (videoUrl s) s3"
    using e2 element_inv_cong [of s3 s2] by (simp add: s3_def)
  have e4: "element_inv (videoUrl s) s4"
    using e3 element_inv_cong [of s4 s3] by (simp add: s4_def)
  have "element_inv (videoUrl s) (s4\<lparr>deps := ?r\<rparr>)"
    using e4 element_inv_cong [of "s4\<lparr>deps := ?r\<rparr>" s4] by simp
  then show ?thesis by (simp add: c)
qed

lemma commit_playing_inv:
  assumes "playing_inv s"
  shows "playing_inv (commit s)"
proof (cases "autoplay_deps (render_of (commit s)) = autoplay_deps (render_of s)")
  case False
  then show ?thesis by (simp add: playing_inv_def commit_props)
next
  case True
  then have same: "isPlaying (commit s) = isPlaying s" "isLoaded (commit s) = isLoaded s"
    "isFailed (commit s) = isFailed s" "inPlayView (commit s) = inPlayView s"
    by (simp_all add: autoplay_deps_def)
  have "playing_ok s"
  proof (cases "autoplay_deps (render_of s) = autoplay_deps (deps s)")
    case True
    with assms show ?thesis by (simp add: playing_inv_def)
  next
    case False
    let ?r = "render_of s"
    let ?p = "deps s"
    define s3 where "s3 =
      run_effect (unload_deps ?r \<noteq> unload_deps ?p) (unload_effect ?r)
       (run_effect (reset_deps ?r \<noteq> reset_deps ?p) (reset_effect ?r)
         (run_effect (load_deps ?r \<noteq> load_deps ?p) (load_effect ?r)
           (run_effect (unload_deps ?r \<noteq> unload_deps ?p) unload_effect_cleanup s)))"
    have c: "commit s = (autoplay_effect ?r s3)\<lparr>deps := ?r\<rparr>"
      using False by (simp add: commit_def Let_def s3_def run_effect_def)
    show ?thesis
    proof (rule ccontr)
      assume "\<not> playing_ok s"
      then have bad: "isPlaying s" "isLoaded s" "\<not> isFailed s" "\<not> inPlayView s"
        by (simp_all add: playing_ok_def)
      then have "\<not> isPlaying (autoplay_effect ?r s3)"
        by (simp add: autoplay_effect_def el_pause_def)
      with same(1) bad(1) show False by (simp add: c)
    qed
  qed
  with same show ?thesis by (simp add: playing_inv_def playing_ok_def)
qed

lemma commit_pre_inv: "pre_inv s \<Longrightarrow> pre_inv (commit s)"
  by (simp add: pre_inv_def commit_timers_inv commit_element_inv commit_playing_inv)

lemma settle_pre_inv: "pre_inv s \<Longrightarrow> pre_inv (settle s)"
proof (induction s rule: settle.induct)
  case (1 s)
  show ?case
  proof (cases "stable s")
    case True
    with 1 show ?thesis by simp
  next
    case False
    with 1 show ?thesis by (simp add: settle_unstable commit_pre_inv)
  qed
qed

lemma settle_video_inv: "pre_inv s \<Longrightarrow> video_inv (settle s)"
  by (simp add: video_inv_def stable_settle settle_pre_inv)

lemma video_inv_playing: "video_inv s \<Longrightarrow> playing_ok s"
  by (auto simp: video_inv_def pre_inv_def playing_inv_def stable_def)


subsection \<open>The invariant holds in every reachable state\<close>

lemma timers_inv_cong:
  assumes "pending s' = pending s" "next_id s' = next_id s"
    "el_loadTimeout s' = el_loadTimeout s" "unload_cleanup s' = unload_cleanup s"
  shows "timers_inv p s' = timers_inv p s"
  using assms
  by (simp add: timers_inv_def list_all_iff ref_fresh_def timer_ok_cong [of s' s])

lemma timers_inv_filter:
  assumes "timers_inv p s"
  shows "timers_inv p (s\<lparr>pending := filter f (pending s)\<rparr>)"
proof -
  have "timer_ok p (s\<lparr>pending := filter f (pending s)\<rparr>) t = timer_ok p s t" for t
    by (rule timer_ok_cong) simp_all
  then show ?thesis
    using assms
    by (auto simp: timers_inv_def list_all_iff ref_fresh_def distinct_map_filter)
qed

lemma clearTimeout_timers_inv: "timers_inv p s \<Longrightarrow> timers_inv p (clearTimeout r s)"
  by (cases r) (simp_all add: clearTimeout_def timers_inv_filter)

lemma forget_loadTimeout_timers_inv:
  assumes "timers_inv p s"
  shows "timers_inv p (s\<lparr>el_loadTimeout := None\<rparr>)"
proof -
  have "timer_ok p (s\<lparr>el_loadTimeout := None\<rparr>) t" if "timer_ok p s t" for t
    using that by (cases "(p, s, t)" rule: timer_ok.cases) simp_all
  then show ?thesis
    using assms by (auto simp: timers_inv_def list_all_iff ref_fresh_def)
qed

lemma el_pause_fields [simp]:
  "isLoaded (el_pause s) = isLoaded s" "isPlaying (el_pause s) = isPlaying s"
  "isFailed (el_pause s) = isFailed s" "isLoading (el_pause s) = isLoading s"
  "srcRef (el_pause s) = srcRef s" "el_src (el_pause s) = el_src s"
  "el_loading (el_pause s) = el_loading s" "el_loadTimeout (el_pause s) = el_loadTimeout s"
  "unload_cleanup (el_pause s) = unload_cleanup s" "videoUrl (el_pause s) = videoUrl s"
  "inLoadView (el_pause s) = inLoadView s" "inPlayView (el_pause s) = inPlayView s"
  "intersectionRatio (el_pause s) = intersectionRatio s" "autoplay (el_pause s) = autoplay s"
  "pending (el_pause s) = pending s" "next_id (el_pause s) = next_id s"
  "clock (el_pause s) = clock s" "deps (el_pause s) = deps s"
  "el_paused (el_pause s)" "\<not> play_pending (el_pause s)"
  by (simp_all add: el_pause_def)

lemma el_play_fields [simp]:
  "isLoaded (el_play s) = isLoaded s" "isPlaying (el_play s) = isPlaying s"
  "isFailed (el_play s) = isFailed s" "isLoading (el_play s) = isLoading s"
  "srcRef (el_play s) = srcRef s" "el_src (el_play s) = el_src s"
  "el_loading (el_play s) = el_loading s" "el_loadTimeout (el_play s) = el_loadTimeout s"
  "unload_cleanup (el_play s) = unload_cleanup s" "videoUrl (el_play s) = videoUrl s"
  "inLoadView (el_play s) = inLoadView s" "inPlayView (el_play s) = inPlayView s"
  "intersectionRatio (el_play s) = intersectionRatio s" "autoplay (el_play s) = autoplay s"
  "pending (el_play s) = pending s" "next_id (el_play s) = next_id s"
  "clock (el_play s) = clock s" "deps (el_play s) = deps s"
  "\<not> el_paused (el_play s)" "play_pending (el_play s)"
  by (simp_all add: el_play_def)

lemma video_inv_mount: "url \<noteq> [] \<Longrightarrow> video_inv (video_mount url auto highlight t)"
  by (simp add: video_inv_def stable_def pre_inv_def timers_inv_def element_inv_def
      playing_inv_def playing_ok_def ref_fresh_def video_mount_def render_of_def)

lemma handle_pre_inv:
  assumes "video_inv s" and "event_ok e"
  shows "pre_inv (handle s e)"
proof -
  have st: "render_of s = deps s" and ti: "timers_inv (deps s) s"
    and ei: "element_inv (r_videoUrl (deps s)) s" and po: "playing_ok s"
    using assms(1) video_inv_playing [OF assms(1)]
    by (simp_all add: video_inv_def stable_def pre_inv_def)
  have dv: "r_videoUrl (deps s) = videoUrl s"
    using st by (metis render_of_simps(5))
  show ?thesis
  proof (cases e)
    case (SetInLoadView b)
    then show ?thesis
      using ti ei po
      by (simp add: pre_inv_def timers_inv_cong [of "s\<lparr>inLoadView := b\<rparr>" s]
          element_inv_cong [of "s\<lparr>inLoadView := b\<rparr>" s] playing_inv_def playing_ok_def)
  next
    case (SetInPlayView b ratio)
    let ?s = "s\<lparr>inPlayView := b, intersectionRatio := ratio\<rparr>"
    have "playing_inv ?s"
      using po st by (auto simp: playing_inv_def playing_ok_def autoplay_deps_def
          dest: arg_cong [where f = r_inPlayView])
    then show ?thesis
      using SetInPlayView ti ei
      by (simp add: pre_inv_def timers_inv_cong [of ?s s] element_inv_cong [of ?s s])
  next
    case (SetVideoUrl u)
    then have "u \<noteq> []" using assms(2) by simp
    then have "element_inv (r_videoUrl (deps s)) (s\<lparr>videoUrl := u\<rparr>)"
      using ei by (simp add: element_inv_def)
    then show ?thesis
      using SetVideoUrl ti po
      by (simp add: pre_inv_def timers_inv_cong [of "s\<lparr>videoUrl := u\<rparr>" s]
          playing_inv_def playing_ok_def)
  next
    case (SetAutoplay b)
    then show ?thesis
      using ti ei po
      by (simp add: pre_inv_def timers_inv_cong [of "s\<lparr>autoplay := b\<rparr>" s]
          element_inv_cong [of "s\<lparr>autoplay := b\<rparr>" s] playing_inv_def playing_ok_def)
  next
    case (SetHighlightMode b)
    then show ?thesis
      using ti ei po
      by (simp add: pre_inv_def timers_inv_cong [of "s\<lparr>highlightMode := b\<rparr>" s]
          element_inv_cong [of "s\<lparr>highlightMode := b\<rparr>" s] playing_inv_def playing_ok_def)
  next
    case MediaLoadedMetadata
    show ?thesis
    proof (cases "el_loading s")
      case False
      with MediaLoadedMetadata assms(1) show ?thesis by (simp add: video_inv_def)
    next
      case True
      let ?h = "handleLoadedMetadata (s\<lparr>el_loading := False\<rparr>)"
      have src: "el_src s = Some (srcRef s)" "isLoading s" "\<not> isFailed s"
        using True ei by (auto simp: element_inv_def)
      have h: "?h = (clearTimeout (el_loadTimeout s) (s\<lparr>el_loading := False\<rparr>))
                      \<lparr>el_loadTimeout := None, isLoaded := True, isLoading := False,
                       isFailed := False, loadingError := None\<rparr>"
        using src by (simp add: handleLoadedMetadata_def Let_def)
      have "timers_inv (deps s) (clearTimeout (el_loadTimeout s) (s\<lparr>el_loading := False\<rparr>))"
        using ti timers_inv_cong [of "s\<lparr>el_loading := False\<rparr>" s]
        by (intro clearTimeout_timers_inv) simp
      then have "timers_inv (deps s)
                   ((clearTimeout (el_loadTimeout s) (s\<lparr>el_loading := False\<rparr>))
                      \<lparr>el_loadTimeout := None\<rparr>)"
        by (rule forget_loadTimeout_timers_inv)
      moreover have "timers_inv (deps s) ?h = timers_inv (deps s)
                   ((clearTimeout (el_loadTimeout s) (s\<lparr>el_loading := False\<rparr>))
                      \<lparr>el_loadTimeout := None\<rparr>)"
        by (rule timers_inv_cong) (simp_all add: h)
      ultimately have t: "timers_inv (deps ?h) ?h"
        by (simp add: h)
      have e: "element_inv (r_videoUrl (deps ?h)) ?h"
        using ei src by (simp add: h element_inv_def)
      have p: "playing_inv ?h"
        using po src st
        by (auto simp: h playing_inv_def playing_ok_def autoplay_deps_def
            dest: arg_cong [where f = r_isLoaded])
      from t e p MediaLoadedMetadata True show ?thesis by (simp add: pre_inv_def)
    qed
  next
    case MediaError
    show ?thesis
    proof (cases "el_src s = None")
      case True
      with MediaError assms(1) show ?thesis by (simp add: video_inv_def)
    next
      case False
      let ?h = "handleError (s\<lparr>el_loading := False\<rparr>)"
      have src: "el_src s = Some (srcRef s)" "srcRef s = r_videoUrl (deps s)"
        using False ei by (auto simp: element_inv_def)
      have h: "?h = (clearTimeout (el_loadTimeout s) (s\<lparr>el_loading := False\<rparr>))
                      \<lparr>el_loadTimeout := None, loadingError := Some ''Media error'',
                       isFailed := True, isLoading := False\<rparr>"
        using src(1) by (simp add: handleError_def Let_def)
      have "timers_inv (deps s) (clearTimeout (el_loadTimeout s) (s\<lparr>el_loading := False\<rparr>))"
        using ti timers_inv_cong [of "s\<lparr>el_loading := False\<rparr>" s]
        by (intro clearTimeout_timers_inv) simp
      then have "timers_inv (deps s)
                   ((clearTimeout (el_loadTimeout s) (s\<lparr>el_loading := False\<rparr>))
                      \<lparr>el_loadTimeout := None\<rparr>)"
        by (rule forget_loadTimeout_timers_inv)
      moreover have "timers_inv (deps s) ?h = timers_inv (deps s)
                   ((clearTimeout (el_loadTimeout s) (s\<lparr>el_loading := False\<rparr>))
                      \<lparr>el_loadTimeout := None\<rparr>)"
        by (rule timers_inv_cong) (simp_all add: h)
      ultimately have t: "timers_inv (deps ?h) ?h"
        by (simp add: h)
      have e: "element_inv (r_videoUrl (deps ?h)) ?h"
        using ei src by (simp add: h element_inv_def)
      have p: "playing_inv ?h"
        by (simp add: h playing_inv_def playing_ok_def)
      from t e p MediaError False show ?thesis by (simp add: pre_inv_def)
    qed
  next
    case MediaPlay
    let ?h = "s\<lparr>play_pending := False, isPlaying := True\<rparr>"
    have "playing_inv ?h"
      using po st by (auto simp: playing_inv_def playing_ok_def autoplay_deps_def
          dest: arg_cong [where f = r_isPlaying])
    then have "pre_inv ?h"
      using ti ei
      by (simp add: pre_inv_def timers_inv_cong [of ?h s] element_inv_cong [of ?h s])
    then show ?thesis
      using MediaPlay assms(1) by (simp add: video_inv_def)
  next
    case MediaPause
    let ?h = "(el_pause s)\<lparr>isPlaying := False\<rparr>"
    have "pre_inv ?h"
      using ti ei
      by (simp add: pre_inv_def timers_inv_cong [of ?h s] element_inv_cong [of ?h s]
          playing_inv_def playing_ok_def)
    then show ?thesis using MediaPause by simp
  next
    case Click
    have a: "pre_inv (el_play s)"
      using ti ei po
      by (simp add: pre_inv_def timers_inv_cong [of "el_play s" s]
          element_inv_cong [of "el_play s" s] playing_inv_def playing_ok_def
          autoplay_deps_def)
    have b: "pre_inv ((el_pause s)\<lparr>isPlaying := False\<rparr>)"
      using ti ei
      by (simp add: pre_inv_def timers_inv_cong [of "(el_pause s)\<lparr>isPlaying := False\<rparr>" s]
          element_inv_cong [of "(el_pause s)\<lparr>isPlaying := False\<rparr>" s]
          playing_inv_def playing_ok_def)
    show ?thesis
      using Click a b assms(1) by (simp add: handleClick_def video_inv_def)
  next
    case (Elapse d)
    then show ?thesis using assms(1) by (simp add: video_inv_def)
  qed
qed


lemma render_of_cong:
  assumes "isLoaded s' = isLoaded s" "isLoading s' = isLoading s" "isFailed s' = isFailed s"
    "isPlaying s' = isPlaying s" "videoUrl s' = videoUrl s" "inLoadView s' = inLoadView s"
    "inPlayView s' = inPlayView s" "intersectionRatio s' = intersectionRatio s"
    "autoplay s' = autoplay s"
  shows "render_of s' = render_of s"
  using assms by (simp add: render_of_def)

lemma playing_inv_cong:
  assumes "render_of s' = render_of s" "deps s' = deps s"
  shows "playing_inv s' = playing_inv s"
proof -
  have "isPlaying s' = isPlaying s" "isLoaded s' = isLoaded s" "isFailed s' = isFailed s"
    "inPlayView s' = inPlayView s"
    using assms(1) by (metis render_of_simps)+
  with assms show ?thesis by (simp add: playing_inv_def playing_ok_def)
qed

lemma unloadTimer_fields:
  "\<not> isLoaded (unloadTimer False s)" "\<not> isLoading (unloadTimer False s)"
  "\<not> isFailed (unloadTimer False s)" "el_src (unloadTimer False s) = None"
  "\<not> el_loading (unloadTimer False s)" "el_paused (unloadTimer False s)"
  "loadingError (unloadTimer False s) = None"
  "pending (unloadTimer False s) = pending s" "next_id (unloadTimer False s) = next_id s"
  "el_loadTimeout (unloadTimer False s) = el_loadTimeout s"
  "unload_cleanup (unloadTimer False s) = unload_cleanup s"
  "videoUrl (unloadTimer False s) = videoUrl s" "deps (unloadTimer False s) = deps s"
  "inLoadView (unloadTimer False s) = inLoadView s"
  "inPlayView (unloadTimer False s) = inPlayView s"
  "intersectionRatio (unloadTimer False s) = intersectionRatio s"
  "autoplay (unloadTimer False s) = autoplay s" "clock (unloadTimer False s) = clock s"
  "srcRef (unloadTimer False s) = srcRef s"
  "isPlaying (unloadTimer False s) = (isPlaying s \<and> el_paused s)"
  by (simp_all add: unloadTimer_def Let_def el_remove_src_def)

lemma unloadTimer_pre_inv:
  assumes "timers_inv p s" and "element_inv u s"
  shows "timers_inv p (unloadTimer False s)" "element_inv u (unloadTimer False s)"
    "playing_inv (unloadTimer False s)"
proof -
  show "timers_inv p (unloadTimer False s)"
    using assms(1) timers_inv_cong [of "unloadTimer False s" s]
    by (simp add: unloadTimer_fields)
  show "element_inv u (unloadTimer False s)"
    using assms(2) by (simp add: element_inv_def unloadTimer_fields)
  show "playing_inv (unloadTimer False s)"
    by (simp add: playing_inv_def playing_ok_def unloadTimer_fields)
qed

lemma pending_lookup:
  "map_of (pending s) i = Some (due, k) \<Longrightarrow> (i, due, k) \<in> set (pending s)"
  by (rule map_of_SomeD)

lemma fire_timer_video_inv:
  assumes "video_inv s"
  shows "video_inv (fire_timer i s)"
proof (cases "map_of (pending s) i")
  case None
  then show ?thesis using assms by (simp add: fire_timer_def)
next
  case (Some dk)
  obtain due k where dk: "dk = (due, k)" by (cases dk)
  have ti: "timers_inv (deps s) s" and ei: "element_inv (r_videoUrl (deps s)) s"
    and pi: "playing_inv s"
    using assms by (simp_all add: video_inv_def pre_inv_def)
  have mem: "(i, due, k) \<in> set (pending s)"
    using Some dk by (simp add: pending_lookup)
  then have ok: "timer_ok (deps s) s (i, due, k)"
    using ti by (simp add: timers_inv_def list_all_iff)
  let ?c = "clearTimeout (Some i) s"
  have "render_of ?c = render_of s"
    by (rule render_of_cong) simp_all
  then have c: "timers_inv (deps s) ?c" "element_inv (r_videoUrl (deps s)) ?c" "playing_inv ?c"
    using ti ei pi element_inv_cong [of ?c s] playing_inv_cong [of ?c s]
    by (simp_all add: clearTimeout_timers_inv)
  have "pre_inv (timer_callback k ?c)"
  proof (cases k)
    case (LoadTimeout c1 c2)
    with ok have "timer_callback k ?c = ?c"
      by (simp add: timer_callback_def loadTimeout_def)
    with c show ?thesis by (simp add: pre_inv_def)
  next
    case (UnloadTimer c1)
    with ok have "timer_callback k ?c = unloadTimer False ?c"
      by (simp add: timer_callback_def)
    then show ?thesis
      using unloadTimer_pre_inv [OF c(1,2)]
      by (simp add: pre_inv_def unloadTimer_fields)
  qed
  then have "video_inv (settle (timer_callback k ?c))"
    by (rule settle_video_inv)
  with Some dk show ?thesis by (simp add: fire_timer_def)
qed

lemma fire_timers_video_inv: "video_inv s \<Longrightarrow> video_inv (fire_timers is s)"
  by (induction "is" arbitrary: s) (simp_all add: fire_timer_video_inv)

lemma clock_video_inv:
  assumes "video_inv s"
  shows "video_inv (s\<lparr>clock := t\<rparr>)"
proof -
  let ?s = "s\<lparr>clock := t\<rparr>"
  have r: "render_of ?s = render_of s"
    by (rule render_of_cong) simp_all
  have "timers_inv (deps s) ?s = timers_inv (deps s) s"
    by (rule timers_inv_cong) simp_all
  moreover have "element_inv (r_videoUrl (deps s)) ?s = element_inv (r_videoUrl (deps s)) s"
    by (rule element_inv_cong) simp_all
  moreover have "playing_inv ?s = playing_inv s"
    using r by (rule playing_inv_cong) simp
  ultimately show ?thesis
    using assms r by (simp add: video_inv_def pre_inv_def stable_def)
qed

lemma millisecond_video_inv: "video_inv s \<Longrightarrow> video_inv (millisecond s)"
  by (simp add: millisecond_def Let_def fire_timers_video_inv clock_video_inv)

lemma elapse_video_inv: "video_inv s \<Longrightarrow> video_inv (elapse d s)"
  by (induction d arbitrary: s) (simp_all add: millisecond_video_inv)

fun is_elapse :: "video_event \<Rightarrow> bool" where
  "is_elapse (Elapse d) = True"
| "is_elapse _ = False"

lemma step_settle: "\<not> is_elapse e \<Longrightarrow> step s e = settle (handle s e)"
  by (cases e) simp_all

lemma step_video_inv:
  assumes "video_inv s" and "event_ok e"
  shows "video_inv (step s e)"
proof (cases "is_elapse e")
  case True
  then obtain d where "e = Elapse d" by (cases e) simp_all
  then show ?thesis using assms(1) by (simp add: elapse_video_inv)
next
  case False
  then show ?thesis
    using handle_pre_inv [OF assms] by (simp add: step_settle settle_video_inv)
qed

lemma reachable_video_inv: "reachable s \<Longrightarrow> video_inv s"
  by (induction rule: reachable.induct) (simp_all add: video_inv_mount step_video_inv)

subsection \<open>Time passing\<close>

lemma map_of_filter_fst:
  "map_of (filter (\<lambda>t. fst t \<noteq> i) xs) j = (if j = i then None else map_of xs j)"
  by (induction xs) auto

lemma settle_props_all:
  "videoUrl (settle s) = videoUrl s \<and> inLoadView (settle s) = inLoadView s
   \<and> inPlayView (settle s) = inPlayView s \<and> intersectionRatio (settle s) = intersectionRatio s
   \<and> autoplay (settle s) = autoplay s \<and> highlightMode (settle s) = highlightMode s
   \<and> clock (settle s) = clock s"
proof (induction s rule: settle.induct)
  case (1 s)
  show ?case
  proof (cases "stable s")
    case True
    then show ?thesis by simp
  next
    case False
    with 1 show ?thesis by (simp add: settle_unstable commit_props)
  qed
qed

lemma settle_props:
  "videoUrl (settle s) = videoUrl s" "inLoadView (settle s) = inLoadView s"
  "inPlayView (settle s) = inPlayView s" "intersectionRatio (settle s) = intersectionRatio s"
  "autoplay (settle s) = autoplay s" "highlightMode (settle s) = highlightMode s"
  "clock (settle s) = clock s"
  using settle_props_all [of s] by simp_all

text \<open>
  In the load window, or with nothing loaded or loading, no unload timer is pending.
\<close>

lemma video_inv_no_unload:
  assumes "video_inv s" and "inLoadView s \<or> (\<not> isLoaded s \<and> \<not> isLoading s)"
  shows "no_unload s"
proof -
  have st: "deps s = render_of s" and ti: "timers_inv (deps s) s"
    using assms(1) by (simp_all add: video_inv_def stable_def pre_inv_def)
  have "\<not> is_unload t" if "t \<in> set (pending s)" for t
  proof -
    from that ti have "timer_ok (render_of s) s t"
      by (simp add: timers_inv_def list_all_iff st)
    with assms(2) show ?thesis
      by (cases "(render_of s, s, t)" rule: timer_ok.cases) auto
  qed
  then show ?thesis by (simp add: no_unload_def list_all_iff)
qed

text \<open>
  The callback of a load timeout tests the \<open>isLoading\<close> its \<open>loadVideo\<close> saw, which is false:
  firing it only removes it from the timer table.
\<close>

lemma fire_timer_inert:
  assumes "video_inv s" and "map_of (pending s) i = Some (due, LoadTimeout c1 c2)"
  shows "fire_timer i s = s\<lparr>pending := filter (\<lambda>t. fst t \<noteq> i) (pending s)\<rparr>"
proof -
  have "(i, due, LoadTimeout c1 c2) \<in> set (pending s)"
    using assms(2) by (rule pending_lookup)
  moreover have "\<forall>t\<in>set (pending s). timer_ok (deps s) s t"
    using assms(1) by (simp add: video_inv_def pre_inv_def timers_inv_def list_all_iff)
  ultimately have "timer_ok (deps s) s (i, due, LoadTimeout c1 c2)"
    by blast
  then have c: "\<not> c1" by simp
  let ?c = "clearTimeout (Some i) s"
  have "render_of ?c = render_of s"
    by (rule render_of_cong) simp_all
  moreover have "render_of s = deps s" "deps ?c = deps s"
    using assms(1) by (simp_all add: video_inv_def stable_def)
  ultimately have "stable ?c"
    unfolding stable_def by (simp only:)
  then have "settle ?c = ?c" by simp
  then show ?thesis
    using assms(2) c by (simp add: fire_timer_def timer_callback_def loadTimeout_def clearTimeout_def)
qed

lemma filter_inv:
  assumes "video_inv s"
  shows "video_inv (s\<lparr>pending := filter f (pending s)\<rparr>)"
proof -
  let ?s = "s\<lparr>pending := filter f (pending s)\<rparr>"
  have r: "render_of ?s = render_of s"
    by (rule render_of_cong) simp_all
  have "element_inv (r_videoUrl (deps s)) ?s = element_inv (r_videoUrl (deps s)) s"
    by (rule element_inv_cong) simp_all
  moreover have "playing_inv ?s = playing_inv s"
    using r by (rule playing_inv_cong) simp
  moreover have "timers_inv (deps s) ?s"
    using assms by (simp add: video_inv_def pre_inv_def timers_inv_filter)
  ultimately show ?thesis
    using assms r by (simp add: video_inv_def pre_inv_def stable_def)
qed

lemma fire_timers_inert:
  assumes "video_inv s" and "\<forall>t\<in>set (pending s). fst t \<in> set is \<longrightarrow> \<not> is_unload t"
  shows "fire_timers is s = s\<lparr>pending := filter (\<lambda>t. fst t \<notin> set is) (pending s)\<rparr>"
  using assms
proof (induction "is" arbitrary: s)
  case Nil
  then show ?case by simp
next
  case (Cons i "is")
  let ?s = "s\<lparr>pending := filter (\<lambda>t. fst t \<noteq> i) (pending s)\<rparr>"
  have f: "fire_timer i s = ?s"
  proof (cases "map_of (pending s) i")
    case None
    then have "i \<notin> fst ` set (pending s)"
      by (simp add: map_of_eq_None_iff)
    then have "filter (\<lambda>t. fst t \<noteq> i) (pending s) = pending s"
      by (auto simp: filter_id_conv)
    with None show ?thesis by (simp add: fire_timer_def)
  next
    case (Some dk)
    obtain due k where dk: "dk = (due, k)" by (cases dk)
    have "(i, due, k) \<in> set (pending s)"
      using Some dk by (simp add: pending_lookup)
    with Cons.prems(2) have "\<not> is_unload (i, due, k)"
      by fastforce
    then obtain c1 c2 where "k = LoadTimeout c1 c2"
      by (cases k) simp_all
    with Some dk show ?thesis
      using fire_timer_inert [OF Cons.prems(1)] by simp
  qed
  have inv: "video_inv ?s"
    using Cons.prems(1) by (rule filter_inv)
  have nu: "\<forall>t\<in>set (pending ?s). fst t \<in> set is \<longrightarrow> \<not> is_unload t"
    using Cons.prems(2) by simp
  have "fire_timers is ?s = ?s\<lparr>pending := filter (\<lambda>t. fst t \<notin> set is) (pending ?s)\<rparr>"
    using inv nu by (rule Cons.IH)
  moreover have "filter (\<lambda>t. fst t \<notin> set is) (filter (\<lambda>t. fst t \<noteq> i) (pending s))
      = filter (\<lambda>t. fst t \<notin> set (i # is)) (pending s)"
    by (auto intro: filter_cong)
  ultimately show ?case
    using f by simp
qed

text \<open>\<open>unload_due t s\<close>: an unload timer is due at or before the time \<open>t\<close>.\<close>

definition unload_due :: "nat \<Rightarrow> video_item \<Rightarrow> bool" where
  "unload_due t s = list_ex (\<lambda>x. is_unload x \<and> fst (snd x) \<le> t) (pending s)"

lemma no_unload_not_due: "no_unload s \<Longrightarrow> \<not> unload_due t s"
  by (auto simp: no_unload_def unload_due_def list_all_iff list_ex_iff)

lemma video_inv_distinct: "video_inv s \<Longrightarrow> distinct (map fst (pending s))"
  by (simp add: video_inv_def pre_inv_def timers_inv_def)

lemma same_id:
  assumes "distinct (map fst xs)" "t \<in> set xs" "t' \<in> set xs" "fst t = fst t'"
  shows "t = t'"
  using assms by (meson distinct_map inj_onD)

lemma millisecond_inert:
  assumes "video_inv s" and "\<not> unload_due (Suc (clock s)) s"
  shows "millisecond s =
    s\<lparr>clock := Suc (clock s), pending := filter (\<lambda>t. Suc (clock s) < fst (snd t)) (pending s)\<rparr>"
proof -
  let ?s1 = "s\<lparr>clock := Suc (clock s)\<rparr>"
  let ?ids = "map fst (filter (\<lambda>t. fst (snd t) \<le> Suc (clock s)) (pending s))"
  have d: "distinct (map fst (pending s))"
    using assms(1) by (rule video_inv_distinct)
  have inv: "video_inv ?s1"
    using assms(1) by (rule clock_video_inv)
  have due: "fst t \<in> set ?ids \<longleftrightarrow> fst (snd t) \<le> Suc (clock s)" if "t \<in> set (pending s)" for t
  proof
    assume "fst t \<in> set ?ids"
    then obtain t' where t': "t' \<in> set (pending s)" "fst (snd t') \<le> Suc (clock s)" "fst t' = fst t"
      by auto
    with that d have "t' = t" by (metis same_id)
    with t' show "fst (snd t) \<le> Suc (clock s)" by simp
  next
    assume "fst (snd t) \<le> Suc (clock s)"
    with that show "fst t \<in> set ?ids" by auto
  qed
  have "\<forall>t\<in>set (pending ?s1). fst t \<in> set ?ids \<longrightarrow> \<not> is_unload t"
    using assms(2) due by (auto simp: unload_due_def list_ex_iff)
  then have "fire_timers ?ids ?s1 = ?s1\<lparr>pending := filter (\<lambda>t. fst t \<notin> set ?ids) (pending ?s1)\<rparr>"
    using inv by (simp add: fire_timers_inert)
  moreover have "filter (\<lambda>t. fst t \<notin> set ?ids) (pending s)
      = filter (\<lambda>t. Suc (clock s) < fst (snd t)) (pending s)"
    by (rule filter_cong) (auto simp: due not_le [symmetric] simp del: not_le set_map set_filter)
  ultimately show ?thesis
    by (simp add: millisecond_def Let_def)
qed

lemma elapse_inert:
  assumes "video_inv s" and "\<not> unload_due (clock s + d) s"
  shows "elapse d s =
    s\<lparr>clock := clock s + d,
      pending := filter (\<lambda>t. d = 0 \<or> clock s + d < fst (snd t)) (pending s)\<rparr>"
  using assms
proof (induction d arbitrary: s)
  case 0
  then show ?case by simp
next
  case (Suc d)
  let ?s1 = "s\<lparr>clock := Suc (clock s),
                pending := filter (\<lambda>t. Suc (clock s) < fst (snd t)) (pending s)\<rparr>"
  have nd: "\<not> unload_due (Suc (clock s)) s"
    using Suc.prems(2) by (auto simp: unload_due_def list_ex_iff)
  have m: "millisecond s = ?s1"
    using Suc.prems(1) nd by (rule millisecond_inert)
  have inv: "video_inv ?s1"
    using millisecond_video_inv [OF Suc.prems(1)] m by simp
  have "\<not> unload_due (clock ?s1 + d) ?s1"
    using Suc.prems(2) by (auto simp: unload_due_def list_ex_iff)
  with inv have "elapse d ?s1 =
    ?s1\<lparr>clock := clock ?s1 + d,
        pending := filter (\<lambda>t. d = 0 \<or> clock ?s1 + d < fst (snd t)) (pending ?s1)\<rparr>"
    by (rule Suc.IH)
  moreover have "filter (\<lambda>t. d = 0 \<or> Suc (clock s) + d < fst (snd t))
         (filter (\<lambda>t. Suc (clock s) < fst (snd t)) (pending s))
      = filter (\<lambda>t. clock s + Suc d < fst (snd t)) (pending s)"
    by (auto intro: filter_cong)
  ultimately show ?case
    using m by simp
qed

subsection \<open>The unload timer\<close>

definition unloaded :: "video_item \<Rightarrow> bool" where
  "unloaded s = (\<not> isLoaded s \<and> \<not> isLoading s \<and> \<not> isFailed s \<and> el_src s = None)"

lemma commit_unloaded:
  assumes "\<not> inLoadView s" and "unloaded s"
  shows "unloaded (commit s)"
proof -
  let ?r = "render_of s" and ?p = "deps s"
  define s0 where "s0 = run_effect (unload_deps ?r \<noteq> unload_deps ?p) unload_effect_cleanup s"
  define s1 where "s1 = run_effect (load_deps ?r \<noteq> load_deps ?p) (load_effect ?r) s0"
  define s2 where "s2 = run_effect (reset_deps ?r \<noteq> reset_deps ?p) (reset_effect ?r) s1"
  define s3 where "s3 = run_effect (unload_deps ?r \<noteq> unload_deps ?p) (unload_effect ?r) s2"
  define s4 where "s4 = run_effect (autoplay_deps ?r \<noteq> autoplay_deps ?p) (autoplay_effect ?r) s3"
  have c: "commit s = s4\<lparr>deps := ?r\<rparr>"
    by (simp add: commit_def Let_def s0_def s1_def s2_def s3_def s4_def)
  have "unloaded s0"
    unfolding s0_def using assms(2)
    by (rule run_effect_inv [where P = unloaded]) (simp add: unloaded_def)
  then have "unloaded s1"
    unfolding s1_def
    by (rule run_effect_inv [where P = unloaded]) (simp add: load_effect_def assms(1))
  then have "unloaded s2"
    unfolding s2_def
    by (rule run_effect_inv [where P = unloaded])
      (simp add: unloaded_def reset_effect_def Let_def el_pause_def el_remove_src_def)
  then have "unloaded s3"
    unfolding s3_def
    by (rule run_effect_inv [where P = unloaded]) (simp add: unloaded_def)
  then have "unloaded s4"
    unfolding s4_def
    by (rule run_effect_inv [where P = unloaded]) (simp add: unloaded_def)
  then show ?thesis
    by (simp add: c unloaded_def)
qed

lemma settle_unloaded: "\<not> inLoadView s \<Longrightarrow> unloaded s \<Longrightarrow> unloaded (settle s)"
proof (induction s rule: settle.induct)
  case (1 s)
  show ?case
  proof (cases "stable s")
    case True
    with 1 show ?thesis by simp
  next
    case False
    with 1 show ?thesis
      by (simp add: settle_unstable commit_props commit_unloaded)
  qed
qed

lemma pending_timer_ok:
  assumes "video_inv s" and "map_of (pending s) i = Some (due, k)"
  shows "timer_ok (render_of s) s (i, due, k)"
proof -
  have "(i, due, k) \<in> set (pending s)"
    using assms(2) by (rule pending_lookup)
  moreover have "\<forall>t\<in>set (pending s). timer_ok (deps s) s t" "deps s = render_of s"
    using assms(1) by (simp_all add: video_inv_def stable_def pre_inv_def timers_inv_def list_all_iff)
  ultimately show ?thesis by auto
qed

lemma fire_timer_unload:
  assumes "video_inv s" and "map_of (pending s) i = Some (due, UnloadTimer c)"
  shows "unloaded (fire_timer i s)"
proof -
  have ok: "\<not> c" "\<not> inLoadView s"
    using pending_timer_ok [OF assms] by simp_all
  let ?c = "clearTimeout (Some i) s"
  have "unloaded (unloadTimer False ?c)" "\<not> inLoadView (unloadTimer False ?c)"
    using ok by (simp_all add: unloaded_def unloadTimer_fields)
  then have "unloaded (settle (unloadTimer False ?c))"
    by (simp add: settle_unloaded)
  then show ?thesis
    using assms(2) ok by (simp add: fire_timer_def timer_callback_def)
qed

lemma fire_timers_unloaded:
  assumes "video_inv s" and "unloaded s"
  shows "unloaded (fire_timers is s)"
proof -
  have "no_unload s"
    using assms by (simp add: video_inv_no_unload unloaded_def)
  then have "\<forall>t\<in>set (pending s). fst t \<in> set is \<longrightarrow> \<not> is_unload t"
    by (simp add: no_unload_def list_all_iff)
  with assms(1) have "fire_timers is s = s\<lparr>pending := filter (\<lambda>t. fst t \<notin> set is) (pending s)\<rparr>"
    by (rule fire_timers_inert)
  with assms(2) show ?thesis by (simp add: unloaded_def)
qed

lemma fire_timers_unload:
  assumes "video_inv s" and "i \<in> set is" and "map_of (pending s) i = Some (due, UnloadTimer c)"
  shows "unloaded (fire_timers is s)"
  using assms
proof (induction "is" arbitrary: s)
  case Nil
  then show ?case by simp
next
  case (Cons j "is")
  show ?case
  proof (cases "j = i")
    case True
    have "unloaded (fire_timer i s)" "video_inv (fire_timer i s)"
      using Cons.prems by (simp_all add: fire_timer_unload fire_timer_video_inv)
    then show ?thesis
      using True by (simp add: fire_timers_unloaded)
  next
    case False
    have i: "unload_cleanup s = Some i"
      using pending_timer_ok [OF Cons.prems(1,3)] by simp
    let ?s = "s\<lparr>pending := filter (\<lambda>t. fst t \<noteq> j) (pending s)\<rparr>"
    have f: "fire_timer j s = s \<or> fire_timer j s = ?s"
    proof (cases "map_of (pending s) j")
      case None
      then show ?thesis by (simp add: fire_timer_def)
    next
      case (Some dk)
      obtain d k where dk: "dk = (d, k)" by (cases dk)
      have "timer_ok (render_of s) s (j, d, k)"
        using Some dk pending_timer_ok [OF Cons.prems(1)] by simp
      with i False obtain c1 c2 where "k = LoadTimeout c1 c2"
        by (cases k) simp_all
      with Some dk show ?thesis
        using fire_timer_inert [OF Cons.prems(1)] by simp
    qed
    have m: "map_of (pending (fire_timer j s)) i = Some (due, UnloadTimer c)"
      using f Cons.prems(3) False by (auto simp: map_of_filter_fst)
    have "i \<in> set is"
      using Cons.prems(2) False by simp
    with fire_timer_video_inv [OF Cons.prems(1)] have "unloaded (fire_timers is (fire_timer j s))"
      using m by (rule Cons.IH)
    then show ?thesis by simp
  qed
qed

lemma elapse_add: "elapse (a + b) s = elapse b (elapse a s)"
  by (induction a arbitrary: s) simp_all

lemma elapse_unloaded:
  assumes "video_inv s" and "unloaded s"
  shows "unloaded (elapse d s)"
proof -
  have "no_unload s"
    using assms by (simp add: video_inv_no_unload unloaded_def)
  then have "\<not> unload_due (clock s + d) s"
    by (rule no_unload_not_due)
  with assms(1) have "elapse d s = s\<lparr>clock := clock s + d,
      pending := filter (\<lambda>t. d = 0 \<or> clock s + d < fst (snd t)) (pending s)\<rparr>"
    by (rule elapse_inert)
  with assms(2) show ?thesis by (simp add: unloaded_def)
qed

text \<open>
  The only unload timer that can be pending is the one the cleanup of the unload effect
  would clear.
\<close>

lemma unload_timer_unique:
  assumes "video_inv s" and "map_of (pending s) i = Some (due, UnloadTimer c)"
    and "t \<in> set (pending s)" and "is_unload t"
  shows "t = (i, due, UnloadTimer c)"
proof -
  obtain j d k where t: "t = (j, d, k)" by (cases t)
  have "(i, due, UnloadTimer c) \<in> set (pending s)"
    using assms(2) by (rule pending_lookup)
  moreover have "unload_cleanup s = Some i"
    using pending_timer_ok [OF assms(1,2)] by simp
  moreover have "unload_cleanup s = Some j"
  proof -
    have "\<forall>t\<in>set (pending s). timer_ok (deps s) s t"
      using assms(1) by (simp add: video_inv_def pre_inv_def timers_inv_def list_all_iff)
    with assms(3) have "timer_ok (deps s) s (j, d, k)" using t by auto
    with assms(4) t show ?thesis by (cases k) simp_all
  qed
  ultimately show ?thesis
    using same_id [OF video_inv_distinct [OF assms(1)] assms(3)] t by fastforce
qed

lemma elapse_unload:
  assumes "video_inv s" and "map_of (pending s) i = Some (due, UnloadTimer c)"
    and "clock s < due" and "due \<le> clock s + d"
  shows "unloaded (elapse d s)"
proof -
  define a where "a = due - Suc (clock s)"
  define b where "b = clock s + d - due"
  have d: "d = a + Suc b" and due: "due = Suc (clock s + a)"
    using assms(3,4) by (simp_all add: a_def b_def)
  have mem: "(i, due, UnloadTimer c) \<in> set (pending s)"
    using assms(2) by (rule pending_lookup)
  have "\<not> unload_due (clock s + a) s"
  proof
    assume "unload_due (clock s + a) s"
    then obtain t where t: "t \<in> set (pending s)" "is_unload t" "fst (snd t) \<le> clock s + a"
      by (auto simp: unload_due_def list_ex_iff)
    then have "t = (i, due, UnloadTimer c)"
      using unload_timer_unique [OF assms(1,2)] by simp
    with t(3) due show False by simp
  qed
  with assms(1) have e: "elapse a s = s\<lparr>clock := clock s + a,
      pending := filter (\<lambda>t. a = 0 \<or> clock s + a < fst (snd t)) (pending s)\<rparr>"
    by (rule elapse_inert)
  let ?s1 = "elapse a s"
  have inv1: "video_inv ?s1"
    using assms(1) by (rule elapse_video_inv)
  have "(i, due, UnloadTimer c) \<in> set (pending ?s1)"
    using mem due by (simp add: e)
  then have m1: "map_of (pending ?s1) i = Some (due, UnloadTimer c)"
    using video_inv_distinct [OF inv1] by (simp add: map_of_is_SomeI)
  have c1: "clock ?s1 = clock s + a"
    by (simp add: e)
  let ?s2 = "?s1\<lparr>clock := Suc (clock ?s1)\<rparr>"
  have inv2: "video_inv ?s2"
    using inv1 by (rule clock_video_inv)
  have m2: "map_of (pending ?s2) i = Some (due, UnloadTimer c)"
    using m1 by simp
  have "i \<in> set (map fst (filter (\<lambda>t. fst (snd t) \<le> clock ?s2) (pending ?s2)))"
    using pending_lookup [OF m2] c1 due by force
  with inv2 have "unloaded (fire_timers (map fst (filter (\<lambda>t. fst (snd t) \<le> clock ?s2) (pending ?s2))) ?s2)"
    using m2 by (rule fire_timers_unload)
  then have u: "unloaded (millisecond ?s1)"
    by (simp add: millisecond_def Let_def)
  have "video_inv (millisecond ?s1)"
    using inv1 by (rule millisecond_video_inv)
  then have "unloaded (elapse b (millisecond ?s1))"
    using u by (rule elapse_unloaded)
  moreover have "elapse d s = elapse (Suc b) ?s1"
    unfolding d by (rule elapse_add)
  ultimately show ?thesis
    by simp
qed

subsection \<open>Leaving and entering the load window\<close>

text \<open>What the claims call the resource: the load flags and the source of the element.\<close>

definition resource :: "video_item \<Rightarrow> bool \<times> bool \<times> bool \<times> string option" where
  "resource s = (isLoaded s, isLoading s, isFailed s, el_src s)"

lemma cleanup_pending:
  assumes "video_inv s"
  shows "(case unload_cleanup s of None \<Rightarrow> pending s
          | Some i \<Rightarrow> filter (\<lambda>t. fst t \<noteq> i) (pending s))
         = filter (\<lambda>t. \<not> is_unload t) (pending s)"
proof -
  have ok: "timer_ok (deps s) s t" if "t \<in> set (pending s)" for t
    using that assms by (simp add: video_inv_def pre_inv_def timers_inv_def list_all_iff)
  show ?thesis
  proof (cases "unload_cleanup s")
    case None
    have "\<not> is_unload t" if "t \<in> set (pending s)" for t
      using ok [OF that] None by (cases "(deps s, s, t)" rule: timer_ok.cases) simp_all
    then have "filter (\<lambda>t. \<not> is_unload t) (pending s) = pending s"
      by (simp add: filter_id_conv)
    with None show ?thesis by simp
  next
    case (Some i)
    have "(fst t \<noteq> i) = (\<not> is_unload t)" if "t \<in> set (pending s)" for t
      using ok [OF that] Some by (cases "(deps s, s, t)" rule: timer_ok.cases) auto
    then have "filter (\<lambda>t. fst t \<noteq> i) (pending s) = filter (\<lambda>t. \<not> is_unload t) (pending s)"
      by (intro filter_cong refl) simp
    with Some show ?thesis by simp
  qed
qed

lemma commit_visibility:
  assumes "video_inv s" and "isLoaded s \<or> isLoading s" and "b \<noteq> inLoadView s"
  shows "commit (s\<lparr>inLoadView := b\<rparr>) =
    (unload_effect (render_of (s\<lparr>inLoadView := b\<rparr>))
       (unload_effect_cleanup (s\<lparr>inLoadView := b\<rparr>)))
     \<lparr>deps := render_of (s\<lparr>inLoadView := b\<rparr>)\<rparr>"
proof -
  let ?x = "s\<lparr>inLoadView := b\<rparr>"
  let ?r = "render_of ?x"
  have st: "deps s = render_of s"
    using assms(1) by (simp add: video_inv_def stable_def)
  have u: "unload_deps ?r \<noteq> unload_deps (deps ?x)"
    using assms(3) by (simp add: st unload_deps_def)
  have r: "reset_deps ?r = reset_deps (deps ?x)"
    by (simp add: st reset_deps_def)
  have a: "autoplay_deps ?r = autoplay_deps (deps ?x)"
    by (simp add: st autoplay_deps_def)
  have l: "load_effect ?r y = y" for y
    using assms(2) by (auto simp: load_effect_def loadVideo_skip)
  show ?thesis
    unfolding commit_def Let_def
    by (simp only: u r a l run_effect_def not_True_eq_False not_False_eq_True if_True if_False
        simp_thms if_cancel)
qed

lemma step_visibility:
  assumes "video_inv s" and "isLoaded s \<or> isLoading s" and "b \<noteq> inLoadView s"
  shows "step s (SetInLoadView b) =
    (unload_effect (render_of (s\<lparr>inLoadView := b\<rparr>))
       (unload_effect_cleanup (s\<lparr>inLoadView := b\<rparr>)))
     \<lparr>deps := render_of (s\<lparr>inLoadView := b\<rparr>)\<rparr>"
proof -
  let ?x = "s\<lparr>inLoadView := b\<rparr>"
  let ?y = "(unload_effect (render_of ?x) (unload_effect_cleanup ?x))\<lparr>deps := render_of ?x\<rparr>"
  have st: "deps s = render_of s"
    using assms(1) by (simp add: video_inv_def stable_def)
  have "r_inLoadView (render_of ?x) \<noteq> r_inLoadView (deps ?x)"
    using assms(3) by (simp add: st)
  then have "\<not> stable ?x"
    unfolding stable_def by metis
  then have "settle ?x = settle (commit ?x)"
    by (rule settle_unstable)
  moreover have "commit ?x = ?y"
    using assms by (rule commit_visibility)
  moreover have "stable ?y"
  proof -
    have "render_of ?y = render_of ?x"
      by (rule render_of_cong) simp_all
    then show ?thesis by (simp add: stable_def)
  qed
  ultimately show ?thesis by simp
qed

lemma cleanup_eq:
  assumes "video_inv s" and "pending x = pending s" and "unload_cleanup x = unload_cleanup s"
  shows "unload_effect_cleanup x = x\<lparr>pending := filter (\<lambda>t. \<not> is_unload t) (pending s)\<rparr>"
  unfolding cleanup_pending [OF assms(1), symmetric]
  by (cases "unload_cleanup s")
    (simp_all add: assms(2) [symmetric] assms(3) unload_effect_cleanup_def clearTimeout_def)

lemma step_leave:
  assumes "video_inv s" and "isLoaded s \<or> isLoading s" and "inLoadView s"
  shows "step s (SetInLoadView False) =
    s\<lparr>inLoadView := False,
      pending := pending s @ [(next_id s, clock s + 1000, UnloadTimer False)],
      next_id := Suc (next_id s), unload_cleanup := Some (next_id s),
      deps := render_of (s\<lparr>inLoadView := False\<rparr>)\<rparr>"
proof -
  let ?x = "s\<lparr>inLoadView := False\<rparr>"
  have "no_unload s"
    using assms by (simp add: video_inv_no_unload)
  then have "filter (\<lambda>t. \<not> is_unload t) (pending s) = pending s"
    by (simp add: no_unload_def list_all_iff filter_id_conv)
  moreover have "unload_effect_cleanup ?x = ?x\<lparr>pending := filter (\<lambda>t. \<not> is_unload t) (pending s)\<rparr>"
    by (rule cleanup_eq [OF assms(1)]) simp_all
  ultimately have c: "unload_effect_cleanup ?x = ?x"
    by (simp only:) simp
  have e: "step s (SetInLoadView False) =
    (unload_effect (render_of ?x) (unload_effect_cleanup ?x))\<lparr>deps := render_of ?x\<rparr>"
    using assms(1,2) by (rule step_visibility) (simp add: assms(3))
  show ?thesis
    unfolding e c using assms(2) by (simp add: unload_effect_def setTimeout_def)
qed

lemma step_enter:
  assumes "video_inv s" and "isLoaded s \<or> isLoading s" and "\<not> inLoadView s"
  shows "step s (SetInLoadView True) =
    s\<lparr>inLoadView := True, pending := filter (\<lambda>t. \<not> is_unload t) (pending s),
      unload_cleanup := None, deps := render_of (s\<lparr>inLoadView := True\<rparr>)\<rparr>"
proof -
  let ?x = "s\<lparr>inLoadView := True\<rparr>"
  have c: "unload_effect_cleanup ?x = ?x\<lparr>pending := filter (\<lambda>t. \<not> is_unload t) (pending s)\<rparr>"
    by (rule cleanup_eq [OF assms(1)]) simp_all
  have e: "step s (SetInLoadView True) =
    (unload_effect (render_of ?x) (unload_effect_cleanup ?x))\<lparr>deps := render_of ?x\<rparr>"
    using assms(1,2) by (rule step_visibility) (simp add: assms(3))
  show ?thesis
    unfolding e c by (simp add: unload_effect_def)
qed

declare step.simps [simp del]

lemma run_Nil [simp]: "run s [] = s"
  by (simp add: run_def)

lemma run_Cons [simp]: "run s (e # es) = run (step s e) es"
  by (simp add: run_def)

lemma run_append: "run s (es @ fs) = run (run s es) fs"
  by (simp add: run_def)

lemma reachable_run: "reachable s \<Longrightarrow> list_all event_ok es \<Longrightarrow> reachable (run s es)"
  by (induction es arbitrary: s) (simp_all add: reachable_step)

text \<open>While no unload timer comes due, time changes only the clock and the timer table.\<close>

lemma elapse_quiet:
  assumes "video_inv s" and "\<not> unload_due (clock s + d) s"
  shows "resource (elapse d s) = resource s" "inLoadView (elapse d s) = inLoadView s"
    "clock (elapse d s) = clock s + d" "isPlaying (elapse d s) = isPlaying s"
    "loadingError (elapse d s) = loadingError s" "videoUrl (elapse d s) = videoUrl s"
    "el_paused (elapse d s) = el_paused s"
  unfolding elapse_inert [OF assms] by (simp_all add: resource_def)

lemma elapse_in_view:
  assumes "video_inv s" and "inLoadView s"
  shows "resource (elapse d s) = resource s" "inLoadView (elapse d s)"
    "isPlaying (elapse d s) = isPlaying s" "loadingError (elapse d s) = loadingError s"
proof -
  have "\<not> unload_due (clock s + d) s"
    using assms by (simp add: video_inv_no_unload no_unload_not_due)
  with assms show "resource (elapse d s) = resource s" "inLoadView (elapse d s)"
    "isPlaying (elapse d s) = isPlaying s" "loadingError (elapse d s) = loadingError s"
    by (simp_all add: elapse_quiet)
qed

lemma leave_props:
  assumes "video_inv s" and "isLoaded s \<or> isLoading s" and "inLoadView s"
  shows "resource (step s (SetInLoadView False)) = resource s"
    "\<not> inLoadView (step s (SetInLoadView False))"
    "clock (step s (SetInLoadView False)) = clock s"
    "map_of (pending (step s (SetInLoadView False))) (next_id s)
       = Some (clock s + 1000, UnloadTimer False)"
proof -
  note e = step_leave [OF assms]
  show "resource (step s (SetInLoadView False)) = resource s"
    "\<not> inLoadView (step s (SetInLoadView False))"
    "clock (step s (SetInLoadView False)) = clock s"
    unfolding e by (simp_all add: resource_def)
  have "video_inv (step s (SetInLoadView False))"
    using assms(1) by (simp add: step_video_inv)
  then have "distinct (map fst (pending (step s (SetInLoadView False))))"
    by (rule video_inv_distinct)
  moreover have "(next_id s, clock s + 1000, UnloadTimer False)
      \<in> set (pending (step s (SetInLoadView False)))"
    unfolding e by simp
  ultimately show "map_of (pending (step s (SetInLoadView False))) (next_id s)
       = Some (clock s + 1000, UnloadTimer False)"
    by (rule map_of_is_SomeI)
qed

lemma enter_props:
  assumes "video_inv s" and "isLoaded s \<or> isLoading s" and "\<not> inLoadView s"
  shows "resource (step s (SetInLoadView True)) = resource s"
    "inLoadView (step s (SetInLoadView True))"
    "no_unload (step s (SetInLoadView True))"
  unfolding step_enter [OF assms]
  by (simp_all add: resource_def no_unload_def list_all_iff)

text \<open>
  An unload timer that is pending keeps the resource until it is due, and releases it in
  the millisecond it is due.
\<close>

lemma unload_timer_waits:
  assumes "video_inv s" and "map_of (pending s) i = Some (due, UnloadTimer c)"
    and "clock s + d < due"
  shows "\<not> unload_due (clock s + d) s"
proof
  assume "unload_due (clock s + d) s"
  then obtain t where t: "t \<in> set (pending s)" "is_unload t" "fst (snd t) \<le> clock s + d"
    by (auto simp: unload_due_def list_ex_iff)
  then have "t = (i, due, UnloadTimer c)"
    using unload_timer_unique [OF assms(1,2)] by simp
  with t(3) assms(3) show False by simp
qed

lemma debounce:
  assumes "video_inv s" and "isLoaded s \<or> isLoading s" and "inLoadView s"
  shows "d < 1000 \<Longrightarrow> resource (run s [SetInLoadView False, Elapse d]) = resource s"
    "1000 \<le> d \<Longrightarrow> unloaded (run s [SetInLoadView False, Elapse d])"
    "d < 1000 \<Longrightarrow> \<not> no_unload (run s [SetInLoadView False, Elapse d])"
    "d < 1000 \<Longrightarrow> \<not> inLoadView (run s [SetInLoadView False, Elapse d])"
proof -
  let ?s1 = "step s (SetInLoadView False)"
  have inv: "video_inv ?s1"
    using assms(1) by (simp add: step_video_inv)
  note l = leave_props [OF assms]
  have r: "run s [SetInLoadView False, Elapse d] = elapse d ?s1"
    by (simp add: step.simps(1))
  show "resource (run s [SetInLoadView False, Elapse d]) = resource s" if "d < 1000"
  proof -
    have "\<not> unload_due (clock ?s1 + d) ?s1"
      using inv l(4) by (rule unload_timer_waits) (simp add: l(3) that)
    with inv have "resource (elapse d ?s1) = resource ?s1"
      by (rule elapse_quiet)
    with l(1) r show ?thesis by simp
  qed
  show "unloaded (run s [SetInLoadView False, Elapse d])" if "1000 \<le> d"
  proof -
    have "unloaded (elapse d ?s1)"
      using inv l(4) by (rule elapse_unload) (simp_all add: l(3) that)
    with r show ?thesis by simp
  qed
  show "\<not> no_unload (run s [SetInLoadView False, Elapse d])" if "d < 1000"
  proof -
    have q: "\<not> unload_due (clock ?s1 + d) ?s1"
      using inv l(4) by (rule unload_timer_waits) (simp add: l(3) that)
    have "(next_id s, clock s + 1000, UnloadTimer False) \<in> set (pending ?s1)"
      using l(4) by (rule pending_lookup)
    then have "(next_id s, clock s + 1000, UnloadTimer False) \<in> set (pending (elapse d ?s1))"
      unfolding elapse_inert [OF inv q] using that by (simp add: l(3))
    moreover have "is_unload (next_id s, clock s + 1000, UnloadTimer False)"
      by simp
    ultimately have "\<not> no_unload (elapse d ?s1)"
      unfolding no_unload_def list_all_iff by blast
    with r show ?thesis by simp
  qed
  show "\<not> inLoadView (run s [SetInLoadView False, Elapse d])" if "d < 1000"
  proof -
    have "\<not> unload_due (clock ?s1 + d) ?s1"
      using inv l(4) by (rule unload_timer_waits) (simp add: l(3) that)
    with inv have "inLoadView (elapse d ?s1) = inLoadView ?s1"
      by (rule elapse_quiet)
    with l(2) r show ?thesis by simp
  qed
qed

lemma fire_timer_view: "inLoadView (fire_timer i s) = inLoadView s"
proof (cases "map_of (pending s) i")
  case None
  then show ?thesis by (simp add: fire_timer_def)
next
  case (Some dk)
  obtain due k where "dk = (due, k)" by (cases dk)
  with Some show ?thesis
    by (cases k)
      (simp_all add: fire_timer_def timer_callback_def settle_props loadTimeout_def
        unloadTimer_def Let_def el_remove_src_def el_pause_def)
qed

lemma fire_timers_view: "inLoadView (fire_timers is s) = inLoadView s"
  by (induction "is" arbitrary: s) (simp_all add: fire_timer_view)

lemma elapse_view: "inLoadView (elapse d s) = inLoadView s"
  by (induction d arbitrary: s) (simp_all add: millisecond_def Let_def fire_timers_view)

subsection \<open>Failure\<close>

definition load_failed :: "video_item \<Rightarrow> bool" where
  "load_failed s = (isFailed s \<and> \<not> isLoaded s \<and> \<not> isLoading s)"

fun is_url_change :: "video_event \<Rightarrow> bool" where
  "is_url_change (SetVideoUrl u) = True"
| "is_url_change _ = False"

lemma settle_same_url:
  assumes "videoUrl s = r_videoUrl (deps s)"
  shows "isLoaded (settle s) = isLoaded s \<and> isFailed (settle s) = isFailed s
    \<and> (isLoading s \<longrightarrow> isLoading (settle s))"
  using assms
proof (induction s rule: settle.induct)
  case (1 s)
  show ?case
  proof (cases "stable s")
    case True
    then show ?thesis by simp
  next
    case False
    have "videoUrl (commit s) = r_videoUrl (deps (commit s))"
      by (simp add: commit_props)
    with 1(1) [OF False] commit_same_url [OF 1(2)] False show ?thesis
      by (simp add: settle_unstable)
  qed
qed

lemma commit_failed:
  assumes "load_failed s" and "videoUrl s = r_videoUrl (deps s)"
  shows "resource (commit s) = resource s"
proof -
  have l: "load_effect (render_of s) y = y" for y
    using assms(1) by (simp add: load_effect_def load_failed_def)
  have nr: "reset_deps (render_of s) = reset_deps (deps s)"
    using assms(2) by (simp add: reset_deps_def)
  show ?thesis
    by (simp add: commit_def Let_def resource_def l nr)
qed

lemma settle_failed:
  assumes "load_failed s" and "videoUrl s = r_videoUrl (deps s)"
  shows "resource (settle s) = resource s"
  using assms
proof (induction s rule: settle.induct)
  case (1 s)
  show ?case
  proof (cases "stable s")
    case True
    then show ?thesis by simp
  next
    case False
    have r: "resource (commit s) = resource s"
      using 1(2,3) by (rule commit_failed)
    then have "load_failed (commit s)"
      using 1(2) by (simp add: load_failed_def resource_def)
    moreover have "videoUrl (commit s) = r_videoUrl (deps (commit s))"
      by (simp add: commit_props)
    ultimately have "resource (settle (commit s)) = resource (commit s)"
      using 1(1) [OF False] by simp
    with r False show ?thesis by (simp add: settle_unstable)
  qed
qed

lemma handle_failed:
  assumes "video_inv s" and "load_failed s" and "\<not> is_url_change e"
  shows "resource (handle s e) = resource s"
    "videoUrl (handle s e) = r_videoUrl (deps (handle s e))"
proof -
  have st: "deps s = render_of s" and ei: "element_inv (r_videoUrl (deps s)) s"
    using assms(1) by (simp_all add: video_inv_def stable_def pre_inv_def)
  have nl: "\<not> el_loading s"
    using ei assms(2) by (auto simp: element_inv_def load_failed_def)
  show "resource (handle s e) = resource s"
    using assms(2,3) nl
    by (cases e)
      (simp_all add: resource_def load_failed_def handleError_def handleClick_def Let_def)
  show "videoUrl (handle s e) = r_videoUrl (deps (handle s e))"
    using assms(2,3) nl
    by (cases e)
      (simp_all add: st load_failed_def handleError_def handleClick_def Let_def)
qed

lemma failed_step:
  assumes "video_inv s" and "load_failed s" and "\<not> is_url_change e"
  shows "resource (step s e) = resource s"
proof (cases "is_elapse e")
  case True
  then obtain d where e: "e = Elapse d" by (cases e) simp_all
  have "no_unload s"
    using assms(1,2) by (simp add: video_inv_no_unload load_failed_def)
  then have "\<not> unload_due (clock s + d) s"
    by (rule no_unload_not_due)
  with assms(1) have "resource (elapse d s) = resource s"
    by (rule elapse_quiet)
  then show ?thesis by (simp add: e step.simps)
next
  case False
  have "load_failed (handle s e)"
    using handle_failed(1) [OF assms] assms(2) by (simp add: load_failed_def resource_def)
  then have "resource (settle (handle s e)) = resource (handle s e)"
    using handle_failed(2) [OF assms] by (rule settle_failed)
  then show ?thesis
    using False handle_failed(1) [OF assms] by (simp add: step_settle)
qed

lemma no_url_change_ok: "\<not> is_url_change e \<Longrightarrow> event_ok e"
  by (cases e) simp_all

lemma failed_run:
  assumes "video_inv s" and "load_failed s" and "list_all (\<lambda>e. \<not> is_url_change e) es"
  shows "resource (run s es) = resource s"
  using assms
proof (induction es arbitrary: s)
  case Nil
  then show ?case by simp
next
  case (Cons e es)
  have e: "\<not> is_url_change e" and es: "list_all (\<lambda>e. \<not> is_url_change e) es"
    using Cons.prems(3) by simp_all
  have r: "resource (step s e) = resource s"
    using Cons.prems(1,2) e by (rule failed_step)
  then have f: "load_failed (step s e)"
    using Cons.prems(2) by (simp add: load_failed_def resource_def)
  have "video_inv (step s e)"
    using Cons.prems(1) e by (simp add: step_video_inv no_url_change_ok)
  then have "resource (run (step s e) es) = resource (step s e)"
    using f es by (rule Cons.IH)
  with r show ?case by simp
qed

text \<open>A render in the load window with nothing loaded, loading or failed starts a load.\<close>

lemma commit_starts_load:
  assumes "inLoadView s" and "unloaded s" and "load_deps (render_of s) \<noteq> load_deps (deps s)"
    and "videoUrl s = r_videoUrl (deps s)"
  shows "isLoading (commit s)"
proof -
  have nr: "reset_deps (render_of s) = reset_deps (deps s)"
    using assms(4) by (simp add: reset_deps_def)
  have l: "isLoading (load_effect (render_of s) y)" for y
    using assms(1,2) by (simp add: load_effect_def loadVideo_def unloaded_def Let_def el_load_def)
  show ?thesis
    using assms(3) by (simp add: commit_def Let_def nr l)
qed

lemma settle_starts_load:
  assumes "inLoadView s" and "unloaded s" and "load_deps (render_of s) \<noteq> load_deps (deps s)"
    and "videoUrl s = r_videoUrl (deps s)"
  shows "isLoading (settle s)" "\<not> isLoaded (settle s)" "\<not> isFailed (settle s)"
proof -
  have ns: "\<not> stable s"
    using assms(3) by (auto simp: stable_def)
  have "isLoading (commit s)"
    using assms by (rule commit_starts_load)
  moreover have "videoUrl (commit s) = r_videoUrl (deps (commit s))"
    by (simp add: commit_props)
  ultimately have "isLoading (settle (commit s))"
    using settle_same_url [of "commit s"] by simp
  then show "isLoading (settle s)"
    using ns by (simp add: settle_unstable)
  show "\<not> isLoaded (settle s)" "\<not> isFailed (settle s)"
    using settle_same_url [OF assms(4)] assms(2) by (simp_all add: unloaded_def)
qed

lemma enter_unloaded:
  assumes "video_inv s" and "unloaded s" and "\<not> inLoadView s"
  shows "isLoading (step s (SetInLoadView True))"
proof -
  let ?x = "s\<lparr>inLoadView := True\<rparr>"
  have st: "deps s = render_of s"
    using assms(1) by (simp add: video_inv_def stable_def)
  have "isLoading (settle ?x)"
  proof (rule settle_starts_load)
    show "inLoadView ?x" by simp
    show "unloaded ?x" using assms(2) by (simp add: unloaded_def)
    show "load_deps (render_of ?x) \<noteq> load_deps (deps ?x)"
      using assms(3) by (simp add: st load_deps_def)
    show "videoUrl ?x = r_videoUrl (deps ?x)" by (simp add: st)
  qed
  then show ?thesis by (simp add: step.simps)
qed

text \<open>A change of URL resets a failed video; in the load window the new URL is loaded.\<close>

lemma commit_url_change:
  assumes "video_inv s" and "isFailed s" and "u \<noteq> videoUrl s"
  shows "unloaded (commit (s\<lparr>videoUrl := u\<rparr>))"
proof -
  let ?x = "s\<lparr>videoUrl := u\<rparr>"
  have st: "deps s = render_of s" and ei: "element_inv (r_videoUrl (deps s)) s"
    using assms(1) by (simp_all add: video_inv_def stable_def pre_inv_def)
  have src: "srcRef s = videoUrl s" "videoUrl s \<noteq> []"
    using ei assms(2) by (auto simp: element_inv_def st)
  have l: "load_effect (render_of ?x) y = y" for y
    using assms(2) by (simp add: load_effect_def)
  have u: "unload_deps (render_of ?x) = unload_deps (deps ?x)"
    by (simp add: st unload_deps_def)
  have a: "autoplay_deps (render_of ?x) = autoplay_deps (deps ?x)"
    by (simp add: st autoplay_deps_def)
  have r: "reset_deps (render_of ?x) \<noteq> reset_deps (deps ?x)"
    using assms(3) by (simp add: st reset_deps_def)
  have "commit ?x = (reset_effect (render_of ?x) ?x)\<lparr>deps := render_of ?x\<rparr>"
    unfolding commit_def Let_def
    by (simp only: u r a l run_effect_def not_True_eq_False not_False_eq_True if_True if_False
        simp_thms if_cancel)
  then show ?thesis
    using src assms(3)
    by (simp add: unloaded_def reset_effect_def Let_def el_pause_def el_remove_src_def)
qed

lemma url_change_resets:
  assumes "video_inv s" and "isFailed s" and "u \<noteq> videoUrl s"
  shows "\<not> isFailed (step s (SetVideoUrl u))" "\<not> isLoaded (step s (SetVideoUrl u))"
    "isLoading (step s (SetVideoUrl u)) = inLoadView s"
    "\<not> inLoadView s \<Longrightarrow> el_src (step s (SetVideoUrl u)) = None"
proof -
  let ?x = "s\<lparr>videoUrl := u\<rparr>"
  let ?y = "commit ?x"
  have st: "deps s = render_of s"
    using assms(1) by (simp add: video_inv_def stable_def)
  have "r_videoUrl (render_of ?x) \<noteq> r_videoUrl (deps ?x)"
    using assms(3) by (simp add: st)
  then have "\<not> stable ?x"
    unfolding stable_def by metis
  then have s: "step s (SetVideoUrl u) = settle ?y"
    by (simp add: step.simps settle_unstable)
  have un: "unloaded ?y"
    using assms by (rule commit_url_change)
  have url: "videoUrl ?y = r_videoUrl (deps ?y)"
    by (simp add: commit_props)
  have view: "inLoadView ?y = inLoadView s"
    by (simp add: commit_props)
  have ld: "load_deps (render_of ?y) \<noteq> load_deps (deps ?y)"
    using un assms(2) by (simp add: load_deps_def commit_props unloaded_def)
  have res: "\<not> isFailed (settle ?y) \<and> \<not> isLoaded (settle ?y)
      \<and> isLoading (settle ?y) = inLoadView s
      \<and> (\<not> inLoadView s \<longrightarrow> el_src (settle ?y) = None)"
  proof (cases "inLoadView s")
    case True
    then have "inLoadView ?y" by (simp add: view)
    then show ?thesis
      using settle_starts_load [OF _ un ld url] True by simp
  next
    case False
    then have "\<not> inLoadView ?y" by (simp add: view)
    then have "unloaded (settle ?y)"
      using un by (rule settle_unloaded)
    then show ?thesis
      using False by (simp add: unloaded_def)
  qed
  show "\<not> isFailed (step s (SetVideoUrl u))" "\<not> isLoaded (step s (SetVideoUrl u))"
    "isLoading (step s (SetVideoUrl u)) = inLoadView s"
    "\<not> inLoadView s \<Longrightarrow> el_src (step s (SetVideoUrl u)) = None"
    using res by (simp_all add: s)
qed

subsection \<open>Playback\<close>

lemma click_not_loaded:
  assumes "video_inv s" and "\<not> isLoaded s"
  shows "step s Click = s"
  using assms by (simp add: step.simps handleClick_def video_inv_def)

lemma leave_play_window:
  assumes "video_inv s" and "isPlaying s" and "isLoaded s" and "\<not> isFailed s"
  shows "step s (SetInPlayView False ratio) =
    (el_pause (s\<lparr>inPlayView := False, intersectionRatio := ratio\<rparr>))
      \<lparr>isPlaying := False,
        deps := (render_of (s\<lparr>inPlayView := False, intersectionRatio := ratio\<rparr>))
                  \<lparr>r_isPlaying := False\<rparr>\<rparr>"
proof -
  let ?x = "s\<lparr>inPlayView := False, intersectionRatio := ratio\<rparr>"
  let ?y = "(el_pause ?x)\<lparr>isPlaying := False, deps := render_of ?x\<rparr>"
  let ?z = "(el_pause ?x)\<lparr>isPlaying := False, deps := (render_of ?x)\<lparr>r_isPlaying := False\<rparr>\<rparr>"
  have st: "deps s = render_of s"
    using assms(1) by (simp add: video_inv_def stable_def)
  have "playing_ok s"
    using assms(1) by (rule video_inv_playing)
  then have pv: "inPlayView s"
    using assms(2-4) by (simp add: playing_ok_def)
  have "r_inPlayView (render_of ?x) \<noteq> r_inPlayView (deps ?x)"
    using pv by (simp add: st)
  then have nsx: "\<not> stable ?x"
    unfolding stable_def by metis
  have cx: "commit ?x = ?y"
  proof -
    have l: "load_deps (render_of ?x) = load_deps (deps ?x)"
      by (simp add: st load_deps_def)
    have u: "unload_deps (render_of ?x) = unload_deps (deps ?x)"
      by (simp add: st unload_deps_def)
    have r: "reset_deps (render_of ?x) = reset_deps (deps ?x)"
      by (simp add: st reset_deps_def)
    have a: "autoplay_deps (render_of ?x) \<noteq> autoplay_deps (deps ?x)"
      using pv by (simp add: st autoplay_deps_def)
    have e: "autoplay_effect (render_of ?x) ?x = (el_pause ?x)\<lparr>isPlaying := False\<rparr>"
      using assms(2-4) by (simp add: autoplay_effect_def)
    show ?thesis
      unfolding commit_def Let_def
      by (simp only: u r a l e run_effect_def not_True_eq_False not_False_eq_True if_True
          if_False simp_thms)
  qed
  have "r_isPlaying (render_of ?y) \<noteq> r_isPlaying (deps ?y)"
    using assms(2) by simp
  then have nsy: "\<not> stable ?y"
    unfolding stable_def by metis
  have ry: "render_of ?y = (render_of ?x)\<lparr>r_isPlaying := False\<rparr>"
    by (simp add: render_of_def)
  have cy: "commit ?y = ?z"
  proof -
    have l: "load_deps (render_of ?y) = load_deps (deps ?y)"
      by (simp add: load_deps_def)
    have u: "unload_deps (render_of ?y) = unload_deps (deps ?y)"
      by (simp add: unload_deps_def)
    have r: "reset_deps (render_of ?y) = reset_deps (deps ?y)"
      by (simp add: reset_deps_def)
    have e: "autoplay_effect (render_of ?y) ?y = ?y"
      by (simp add: autoplay_effect_def)
    have "commit ?y = ?y\<lparr>deps := render_of ?y\<rparr>"
      unfolding commit_def Let_def
      by (simp only: u r l e run_effect_def not_True_eq_False not_False_eq_True if_True
          if_False simp_thms if_cancel)
    then show ?thesis
      by (simp add: ry)
  qed
  have "render_of ?z = deps ?z"
    by (simp add: render_of_def)
  then have sz: "stable ?z"
    by (simp add: stable_def)
  have "step s (SetInPlayView False ratio) = settle ?x"
    by (simp add: step.simps)
  also have "\<dots> = settle ?y"
    using settle_unstable [OF nsx] by (simp only: cx)
  also have "\<dots> = settle ?z"
    using settle_unstable [OF nsy] by (simp only: cy)
  also have "\<dots> = ?z"
    using sz by (rule settle_stable)
  finally show ?thesis .
qed

subsection \<open>A video on the wall\<close>

text \<open>
  A video \<open>/videos/a.mp4\<close> with autoplay on, mounted at time 0; then in the load window
  (loading), with its metadata loaded, with a media error instead, playing in the play window,
  and with a media error that arrives after loading or while playing.
\<close>

definition demo_video :: video_item where
  "demo_video = video_mount ''/videos/a.mp4'' True False 0"

definition demo_video_loading :: video_item where
  "demo_video_loading = step demo_video (SetInLoadView True)"

definition demo_video_loaded :: video_item where
  "demo_video_loaded = step demo_video_loading MediaLoadedMetadata"

definition demo_video_failed :: video_item where
  "demo_video_failed = step demo_video_loading MediaError"

definition demo_video_late_error :: video_item where
  "demo_video_late_error = step demo_video_loaded MediaError"

definition demo_video_playing :: video_item where
  "demo_video_playing = step (step demo_video_loaded (SetInPlayView True (1 / 2))) MediaPlay"

definition demo_video_broken :: video_item where
  "demo_video_broken = step demo_video_playing MediaError"

lemmas video_eval =
  step.simps handle.simps settle.simps commit_def stable_def render_of_def run_effect_def
  load_deps_def reset_deps_def unload_deps_def autoplay_deps_def
  load_effect_def reset_effect_def unload_effect_def unload_effect_cleanup_def
  autoplay_effect_def loadVideo_def handleError_def handleLoadedMetadata_def handleClick_def
  el_pause_def el_play_def el_load_def el_remove_src_def setTimeout_def clearTimeout_def Let_def

lemma demo_video_loading_eq:
  "demo_video_loading =
    \<lparr>isLoaded = False, isPlaying = False, isFailed = False, isLoading = True,
     loadingError = None, srcRef = ''/videos/a.mp4'', el_src = Some ''/videos/a.mp4'',
     el_paused = True, el_loading = True, play_pending = False, el_loadTimeout = Some 1,
     unload_cleanup = None, videoUrl = ''/videos/a.mp4'', inLoadView = True,
     inPlayView = False, intersectionRatio = 0, autoplay = True, highlightMode = False,
     pending = [(1, 10000, LoadTimeout False False)], next_id = 2, clock = 0,
     deps = \<lparr>r_inLoadView = True, r_inPlayView = False, r_ratio = 0, r_autoplay = True,
             r_videoUrl = ''/videos/a.mp4'', r_isLoaded = False, r_isFailed = False,
             r_isLoading = True, r_isPlaying = False\<rparr>\<rparr>"
  by (simp add: demo_video_loading_def demo_video_def video_mount_def video_eval)

lemma demo_video_loaded_eq:
  "demo_video_loaded =
    \<lparr>isLoaded = True, isPlaying = False, isFailed = False, isLoading = False,
     loadingError = None, srcRef = ''/videos/a.mp4'', el_src = Some ''/videos/a.mp4'',
     el_paused = True, el_loading = False, play_pending = False, el_loadTimeout = None,
     unload_cleanup = None, videoUrl = ''/videos/a.mp4'', inLoadView = True,
     inPlayView = False, intersectionRatio = 0, autoplay = True, highlightMode = False,
     pending = [], next_id = 2, clock = 0,
     deps = \<lparr>r_inLoadView = True, r_inPlayView = False, r_ratio = 0, r_autoplay = True,
             r_videoUrl = ''/videos/a.mp4'', r_isLoaded = True, r_isFailed = False,
             r_isLoading = False, r_isPlaying = False\<rparr>\<rparr>"
  by (simp add: demo_video_loaded_def demo_video_loading_eq video_eval)

lemma demo_video_failed_eq:
  "demo_video_failed =
    \<lparr>isLoaded = False, isPlaying = False, isFailed = True, isLoading = False,
     loadingError = Some ''Media error'', srcRef = ''/videos/a.mp4'',
     el_src = Some ''/videos/a.mp4'', el_paused = True, el_loading = False,
     play_pending = False, el_loadTimeout = None, unload_cleanup = None,
     videoUrl = ''/videos/a.mp4'', inLoadView = True, inPlayView = False,
     intersectionRatio = 0, autoplay = True, highlightMode = False,
     pending = [], next_id = 2, clock = 0,
     deps = \<lparr>r_inLoadView = True, r_inPlayView = False, r_ratio = 0, r_autoplay = True,
             r_videoUrl = ''/videos/a.mp4'', r_isLoaded = False, r_isFailed = True,
             r_isLoading = False, r_isPlaying = False\<rparr>\<rparr>"
  by (simp add: demo_video_failed_def demo_video_loading_eq video_eval)

lemma demo_video_late_error_eq:
  "demo_video_late_error =
    \<lparr>isLoaded = True, isPlaying = False, isFailed = True, isLoading = False,
     loadingError = Some ''Media error'', srcRef = ''/videos/a.mp4'',
     el_src = Some ''/videos/a.mp4'', el_paused = True, el_loading = False,
     play_pending = False, el_loadTimeout = None, unload_cleanup = None,
     videoUrl = ''/videos/a.mp4'', inLoadView = True, inPlayView = False,
     intersectionRatio = 0, autoplay = True, highlightMode = False,
     pending = [], next_id = 2, clock = 0,
     deps = \<lparr>r_inLoadView = True, r_inPlayView = False, r_ratio = 0, r_autoplay = True,
             r_videoUrl = ''/videos/a.mp4'', r_isLoaded = True, r_isFailed = True,
             r_isLoading = False, r_isPlaying = False\<rparr>\<rparr>"
  by (simp add: demo_video_late_error_def demo_video_loaded_eq video_eval)

lemma demo_video_playing_eq:
  "demo_video_playing =
    \<lparr>isLoaded = True, isPlaying = True, isFailed = False, isLoading = False,
     loadingError = None, srcRef = ''/videos/a.mp4'', el_src = Some ''/videos/a.mp4'',
     el_paused = False, el_loading = False, play_pending = False, el_loadTimeout = None,
     unload_cleanup = None, videoUrl = ''/videos/a.mp4'', inLoadView = True,
     inPlayView = True, intersectionRatio = 1 / 2, autoplay = True, highlightMode = False,
     pending = [], next_id = 2, clock = 0,
     deps = \<lparr>r_inLoadView = True, r_inPlayView = True, r_ratio = 1 / 2, r_autoplay = True,
             r_videoUrl = ''/videos/a.mp4'', r_isLoaded = True, r_isFailed = False,
             r_isLoading = False, r_isPlaying = True\<rparr>\<rparr>"
  by (simp add: demo_video_playing_def demo_video_loaded_eq video_eval)

lemma demo_video_broken_eq:
  "demo_video_broken =
    \<lparr>isLoaded = True, isPlaying = True, isFailed = True, isLoading = False,
     loadingError = Some ''Media error'', srcRef = ''/videos/a.mp4'',
     el_src = Some ''/videos/a.mp4'', el_paused = False, el_loading = False,
     play_pending = False, el_loadTimeout = None, unload_cleanup = None,
     videoUrl = ''/videos/a.mp4'', inLoadView = True, inPlayView = True,
     intersectionRatio = 1 / 2, autoplay = True, highlightMode = False,
     pending = [], next_id = 2, clock = 0,
     deps = \<lparr>r_inLoadView = True, r_inPlayView = True, r_ratio = 1 / 2, r_autoplay = True,
             r_videoUrl = ''/videos/a.mp4'', r_isLoaded = True, r_isFailed = True,
             r_isLoading = False, r_isPlaying = True\<rparr>\<rparr>"
  by (simp add: demo_video_broken_def demo_video_playing_eq video_eval)

lemma demo_video_reachable:
  "reachable demo_video" "reachable demo_video_loading" "reachable demo_video_loaded"
  "reachable demo_video_failed" "reachable demo_video_late_error"
  "reachable demo_video_playing" "reachable demo_video_broken"
proof -
  show 0: "reachable demo_video"
    unfolding demo_video_def by (rule reachable_mount) simp
  show 1: "reachable demo_video_loading"
    unfolding demo_video_loading_def using 0 by (rule reachable_step) simp
  show 2: "reachable demo_video_loaded"
    unfolding demo_video_loaded_def using 1 by (rule reachable_step) simp
  show "reachable demo_video_failed"
    unfolding demo_video_failed_def using 1 by (rule reachable_step) simp
  show "reachable demo_video_late_error"
    unfolding demo_video_late_error_def using 2 by (rule reachable_step) simp
  have "reachable (step demo_video_loaded (SetInPlayView True (1 / 2)))"
    using 2 by (rule reachable_step) simp
  then show 3: "reachable demo_video_playing"
    unfolding demo_video_playing_def by (rule reachable_step) simp
  show "reachable demo_video_broken"
    unfolding demo_video_broken_def using 3 by (rule reachable_step) simp
qed

subsection \<open>Unloading out of the load window\<close>

text \<open>
  A video whose load failed (\<open>isFailed\<close>, neither loaded nor loading) is not handled by the
  unload effect, whose guard is \<open>!inLoadView && (isLoaded || isLoading)\<close>: five seconds after
  it has left the load window it is still failed and the element still has its source.
\<close>

theorem failed_item_keeps_src:
  "reachable demo_video_failed \<and> isFailed demo_video_failed \<and> inLoadView demo_video_failed
   \<and> isFailed (run demo_video_failed [SetInLoadView False, Elapse 5000])
   \<and> el_src (run demo_video_failed [SetInLoadView False, Elapse 5000]) = Some ''/videos/a.mp4''
   \<and> \<not> unloaded (run demo_video_failed [SetInLoadView False, Elapse 5000])"
proof -
  have "load_failed demo_video_failed"
    by (simp add: load_failed_def demo_video_failed_eq)
  with reachable_video_inv [OF demo_video_reachable(4)]
  have "resource (run demo_video_failed [SetInLoadView False, Elapse 5000])
      = resource demo_video_failed"
    by (rule failed_run) simp
  then show ?thesis
    using demo_video_reachable(4)
    by (simp add: resource_def unloaded_def demo_video_failed_eq)
qed

text \<open>
  C2, as the code has it. In a reachable state in the load window, let \<open>inLoadView\<close> become
  false and no other event arrive. If the video is loaded or loading (Ready, Playing, Paused,
  Loading, or loaded with a later error), then for less than 1000 ms the flags and the source
  of the element are unchanged, and from 1000 ms on the video is unloaded: not loaded, not
  loading, not failed, and the source of the element removed. If the load of the video has
  failed, nothing is ever released: flags and source stay as they are for every duration.
\<close>

theorem unload_after_debounce:
  assumes "reachable s" and "inLoadView s"
  shows "(isLoaded s \<or> isLoading s \<longrightarrow>
            (\<forall>d<1000. resource (run s [SetInLoadView False, Elapse d]) = resource s)
            \<and> (\<forall>d\<ge>1000. unloaded (run s [SetInLoadView False, Elapse d])))
         \<and> (load_failed s \<longrightarrow>
            (\<forall>d. resource (run s [SetInLoadView False, Elapse d]) = resource s))"
proof -
  have inv: "video_inv s"
    using assms(1) by (rule reachable_video_inv)
  have "resource (run s [SetInLoadView False, Elapse d]) = resource s" if "load_failed s" for d
    using inv that by (rule failed_run) simp
  moreover have "resource (run s [SetInLoadView False, Elapse d]) = resource s"
    if "isLoaded s \<or> isLoading s" "d < 1000" for d
    using debounce(1) [OF inv that(1) assms(2) that(2)] .
  moreover have "unloaded (run s [SetInLoadView False, Elapse d])"
    if "isLoaded s \<or> isLoading s" "1000 \<le> d" for d
    using debounce(2) [OF inv that(1) assms(2) that(2)] .
  ultimately show ?thesis by blast
qed

theorem unload_after_debounce_witness:
  "reachable demo_video_loaded \<and> inLoadView demo_video_loaded \<and> isLoaded demo_video_loaded
   \<and> resource (run demo_video_loaded [SetInLoadView False, Elapse 999])
       = resource demo_video_loaded
   \<and> unloaded (run demo_video_loaded [SetInLoadView False, Elapse 1000])
   \<and> reachable demo_video_failed \<and> inLoadView demo_video_failed
   \<and> load_failed demo_video_failed
   \<and> resource (run demo_video_failed [SetInLoadView False, Elapse 60000])
       = resource demo_video_failed"
proof -
  have l: "inLoadView demo_video_loaded" "isLoaded demo_video_loaded"
    by (simp_all add: demo_video_loaded_eq)
  have f: "inLoadView demo_video_failed" "load_failed demo_video_failed"
    by (simp_all add: demo_video_failed_eq load_failed_def)
  from unload_after_debounce [OF demo_video_reachable(3) l(1)] l(2)
  have "\<forall>d<1000. resource (run demo_video_loaded [SetInLoadView False, Elapse d])
          = resource demo_video_loaded"
    and "\<forall>d\<ge>1000. unloaded (run demo_video_loaded [SetInLoadView False, Elapse d])"
    by blast+
  moreover have "(999::nat) < 1000" "(1000::nat) \<le> 1000"
    by simp_all
  ultimately have "resource (run demo_video_loaded [SetInLoadView False, Elapse 999])
       = resource demo_video_loaded"
    and "unloaded (run demo_video_loaded [SetInLoadView False, Elapse 1000])"
    by blast+
  moreover from unload_after_debounce [OF demo_video_reachable(4) f(1)] f(2)
  have "resource (run demo_video_failed [SetInLoadView False, Elapse 60000])
       = resource demo_video_failed"
    by blast
  ultimately show ?thesis
    using l f demo_video_reachable(3,4) by blast
qed

subsection \<open>The load timeout\<close>

text \<open>Had the callback of the load timeout read the current state, it would fail the load.\<close>

lemma loadTimeout_of_loading:
  "isFailed (loadTimeout True False s) \<and> \<not> isLoading (loadTimeout True False s)
   \<and> loadingError (loadTimeout True False s) = Some ''Load timeout''"
  by (simp add: loadTimeout_def)

text \<open>
  C3, as the code has it. The callback of the 10 s timeout tests the \<open>isLoading\<close> and
  \<open>isLoaded\<close> of the render whose \<open>loadVideo\<close> scheduled it, and \<open>loadVideo\<close> returns early
  unless both are false. So in every reachable state in the load window, a loading video
  stays loading, not failed and with the same \<open>loadingError\<close>, however much time passes
  without an event of the resource: the timeout never moves it to Failed.
\<close>

theorem load_timeout_is_inert:
  assumes "reachable s" and "inLoadView s" and "isLoading s"
  shows "isLoading (step s (Elapse d)) \<and> \<not> isFailed (step s (Elapse d))
    \<and> loadingError (step s (Elapse d)) = loadingError s"
proof -
  have inv: "video_inv s"
    using assms(1) by (rule reachable_video_inv)
  then have "element_inv (r_videoUrl (deps s)) s"
    by (simp add: video_inv_def pre_inv_def)
  then have "\<not> isFailed s"
    using assms(3) by (auto simp: element_inv_def)
  moreover have "resource (elapse d s) = resource s" "loadingError (elapse d s) = loadingError s"
    using inv assms(2) by (rule elapse_in_view)+
  ultimately show ?thesis
    using assms(3) by (simp add: step.simps resource_def)
qed

theorem load_timeout_is_inert_witness:
  "reachable demo_video_loading \<and> inLoadView demo_video_loading \<and> isLoading demo_video_loading
   \<and> pending demo_video_loading = [(1, 10000, LoadTimeout False False)]
   \<and> isLoading (step demo_video_loading (Elapse 10000))
   \<and> \<not> isFailed (step demo_video_loading (Elapse 10000))
   \<and> loadingError (step demo_video_loading (Elapse 10000)) = None
   \<and> isLoading (step demo_video_loading (Elapse 3600000))"
proof -
  have l: "inLoadView demo_video_loading" "isLoading demo_video_loading"
    "pending demo_video_loading = [(1, 10000, LoadTimeout False False)]"
    "loadingError demo_video_loading = None"
    by (simp_all add: demo_video_loading_eq)
  show ?thesis
    using load_timeout_is_inert [OF demo_video_reachable(2) l(1,2), of 10000]
      load_timeout_is_inert [OF demo_video_reachable(2) l(1,2), of 3600000]
      l demo_video_reachable(2)
    by simp
qed

subsection \<open>No retry after a failed load\<close>

text \<open>
  A media error that arrives after the metadata leaves the video loaded and failed. Such a
  video is unloaded one second after it has left the load window, which also clears
  \<open>isFailed\<close>; when it comes back, it is loaded again, and its URL has never changed.
\<close>

theorem late_error_reloads:
  "reachable demo_video_late_error \<and> isFailed demo_video_late_error
   \<and> unloaded (run demo_video_late_error [SetInLoadView False, Elapse 1000])
   \<and> isLoading
       (run demo_video_late_error [SetInLoadView False, Elapse 1000, SetInLoadView True])
   \<and> \<not> isFailed
       (run demo_video_late_error [SetInLoadView False, Elapse 1000, SetInLoadView True])"
proof -
  let ?s = "demo_video_late_error"
  let ?u = "run ?s [SetInLoadView False, Elapse 1000]"
  have f: "isFailed ?s" "isLoaded ?s \<or> isLoading ?s" "inLoadView ?s"
    by (simp_all add: demo_video_late_error_eq)
  have inv: "video_inv ?s"
    using demo_video_reachable(5) by (rule reachable_video_inv)
  have u: "unloaded ?u"
    using inv f(2,3) by (rule debounce(2)) simp
  have "reachable ?u"
    using demo_video_reachable(5) by (rule reachable_run) simp
  then have invu: "video_inv ?u"
    by (rule reachable_video_inv)
  have "\<not> inLoadView (step ?s (SetInLoadView False))"
    using inv f(2,3) by (rule leave_props)
  then have "\<not> inLoadView ?u"
    by (simp add: step.simps(1) elapse_view)
  with invu u have l: "isLoading (step ?u (SetInLoadView True))"
    by (rule enter_unloaded)
  have "reachable (step ?u (SetInLoadView True))"
    using \<open>reachable ?u\<close> by (rule reachable_step) simp
  then have "video_inv (step ?u (SetInLoadView True))"
    by (rule reachable_video_inv)
  then have "element_inv (r_videoUrl (deps (step ?u (SetInLoadView True))))
      (step ?u (SetInLoadView True))"
    by (simp add: video_inv_def pre_inv_def)
  with l have "\<not> isFailed (step ?u (SetInLoadView True))"
    by (auto simp: element_inv_def)
  with l u f(1) demo_video_reachable(5) show ?thesis
    by (simp add: run_append [of _ "[SetInLoadView False, Elapse 1000]" "[SetInLoadView True]",
          simplified])
qed

text \<open>
  C4, as the code has it. In a reachable state in which the load of the video has failed
  (\<open>isFailed\<close>, neither loaded nor loading), no sequence of events without a change of URL
  changes the flags or the source of the element: visibility changes, clicks, media events and
  the passing of time leave the video failed, and in particular never loading. A change of
  URL clears \<open>isFailed\<close>, and the new URL is being loaded exactly if the video is in the load
  window.
\<close>

theorem failed_needs_url_change:
  assumes "reachable s" and "load_failed s"
  shows "(\<forall>es. list_all (\<lambda>e. \<not> is_url_change e) es \<longrightarrow> resource (run s es) = resource s)
    \<and> (\<forall>u. u \<noteq> videoUrl s \<longrightarrow>
          \<not> isFailed (step s (SetVideoUrl u)) \<and> \<not> isLoaded (step s (SetVideoUrl u))
          \<and> isLoading (step s (SetVideoUrl u)) = inLoadView s)"
proof -
  have inv: "video_inv s"
    using assms(1) by (rule reachable_video_inv)
  have f: "isFailed s"
    using assms(2) by (simp add: load_failed_def)
  have "resource (run s es) = resource s" if "list_all (\<lambda>e. \<not> is_url_change e) es" for es
    using inv assms(2) that by (rule failed_run)
  moreover have "\<not> isFailed (step s (SetVideoUrl u)) \<and> \<not> isLoaded (step s (SetVideoUrl u))
      \<and> isLoading (step s (SetVideoUrl u)) = inLoadView s" if "u \<noteq> videoUrl s" for u
    using url_change_resets(1-3) [OF inv f that] by simp
  ultimately show ?thesis by blast
qed

theorem failed_needs_url_change_witness:
  "reachable demo_video_failed \<and> load_failed demo_video_failed
   \<and> resource (run demo_video_failed
        [SetInLoadView False, Elapse 5000, SetInLoadView True, Click, MediaPlay, Elapse 20000])
      = (False, False, True, Some ''/videos/a.mp4'')
   \<and> \<not> isFailed (step demo_video_failed (SetVideoUrl ''/videos/b.mp4''))
   \<and> isLoading (step demo_video_failed (SetVideoUrl ''/videos/b.mp4''))"
proof -
  have f: "load_failed demo_video_failed" "inLoadView demo_video_failed"
    "videoUrl demo_video_failed = ''/videos/a.mp4''"
    "resource demo_video_failed = (False, False, True, Some ''/videos/a.mp4'')"
    by (simp_all add: demo_video_failed_eq load_failed_def resource_def)
  note t = failed_needs_url_change [OF demo_video_reachable(4) f(1)]
  have "list_all (\<lambda>e. \<not> is_url_change e)
      [SetInLoadView False, Elapse 5000, SetInLoadView True, Click, MediaPlay, Elapse 20000]"
    by simp
  with t have "resource (run demo_video_failed
        [SetInLoadView False, Elapse 5000, SetInLoadView True, Click, MediaPlay, Elapse 20000])
      = resource demo_video_failed"
    by blast
  moreover have "''/videos/b.mp4'' \<noteq> videoUrl demo_video_failed"
    by (simp add: f(3))
  with t have "\<not> isFailed (step demo_video_failed (SetVideoUrl ''/videos/b.mp4''))
      \<and> isLoading (step demo_video_failed (SetVideoUrl ''/videos/b.mp4''))
          = inLoadView demo_video_failed"
    by blast
  ultimately show ?thesis
    using f demo_video_reachable(4) by simp
qed

subsection \<open>Coming back before the unload\<close>

text \<open>
  C5. In a reachable state in the load window with the video loaded or loading, let
  \<open>inLoadView\<close> become false, true after \<open>d1 < 1000\<close> ms, and false again after any further
  \<open>d2\<close> ms. The unload timer that was pending is gone as soon as the video is back in the load
  window, so nothing is released while it stays there; the resource is also unchanged for
  every \<open>d3 < 1000\<close> ms after the second leave, even when more than a second has passed since
  the first one, and it is released 1000 ms after the second leave: the last signal wins.
\<close>

theorem flip_cancels_unload:
  assumes "reachable s" and "inLoadView s" and "isLoaded s \<or> isLoading s"
    and "d1 < 1000" and "d3 < 1000"
  shows "\<not> no_unload (run s [SetInLoadView False, Elapse d1])
    \<and> no_unload (run s [SetInLoadView False, Elapse d1, SetInLoadView True])
    \<and> resource (run s [SetInLoadView False, Elapse d1, SetInLoadView True, Elapse d2])
        = resource s
    \<and> resource (run s [SetInLoadView False, Elapse d1, SetInLoadView True, Elapse d2,
          SetInLoadView False, Elapse d3]) = resource s
    \<and> unloaded (run s [SetInLoadView False, Elapse d1, SetInLoadView True, Elapse d2,
          SetInLoadView False, Elapse 1000])"
proof -
  let ?s2 = "run s [SetInLoadView False, Elapse d1]"
  let ?s3 = "step ?s2 (SetInLoadView True)"
  let ?s4 = "elapse d2 ?s3"
  have inv: "video_inv s"
    using assms(1) by (rule reachable_video_inv)
  have r2: "reachable ?s2"
    using assms(1) by (rule reachable_run) simp
  then have inv2: "video_inv ?s2"
    by (rule reachable_video_inv)
  have res2: "resource ?s2 = resource s" and pend2: "\<not> no_unload ?s2"
    and out2: "\<not> inLoadView ?s2"
    using debounce(1,3,4) [OF inv assms(3,2,4)] by simp_all
  have flags2: "isLoaded ?s2 \<or> isLoading ?s2"
    using res2 assms(3) by (simp add: resource_def)
  have res3: "resource ?s3 = resource ?s2" and in3: "inLoadView ?s3" and clear3: "no_unload ?s3"
    using enter_props [OF inv2 flags2 out2] by simp_all
  have inv3: "video_inv ?s3"
    using inv2 by (simp add: step_video_inv)
  have res4: "resource ?s4 = resource ?s3" and in4: "inLoadView ?s4"
    using elapse_in_view(1,2) [OF inv3 in3] by simp_all
  have inv4: "video_inv ?s4"
    using inv3 by (rule elapse_video_inv)
  have res: "resource ?s4 = resource s"
    using res4 res3 res2 by simp
  then have flags4: "isLoaded ?s4 \<or> isLoading ?s4"
    using assms(3) by (simp add: resource_def)
  have "resource (run ?s4 [SetInLoadView False, Elapse d3]) = resource ?s4"
    using inv4 flags4 in4 assms(5) by (rule debounce(1))
  moreover have "unloaded (run ?s4 [SetInLoadView False, Elapse 1000])"
    using inv4 flags4 in4 by (rule debounce(2)) simp
  ultimately show ?thesis
    using pend2 clear3 res by (simp add: step.simps(1))
qed

theorem flip_cancels_unload_witness:
  "reachable demo_video_loaded \<and> inLoadView demo_video_loaded \<and> isLoaded demo_video_loaded
   \<and> \<not> no_unload (run demo_video_loaded [SetInLoadView False, Elapse 400])
   \<and> no_unload (run demo_video_loaded [SetInLoadView False, Elapse 400, SetInLoadView True])
   \<and> resource (run demo_video_loaded
        [SetInLoadView False, Elapse 400, SetInLoadView True, Elapse 100])
      = (True, False, False, Some ''/videos/a.mp4'')
   \<and> resource (run demo_video_loaded
        [SetInLoadView False, Elapse 400, SetInLoadView True, Elapse 100,
         SetInLoadView False, Elapse 999])
      = (True, False, False, Some ''/videos/a.mp4'')
   \<and> unloaded (run demo_video_loaded
        [SetInLoadView False, Elapse 400, SetInLoadView True, Elapse 100,
         SetInLoadView False, Elapse 1000])"
proof -
  have l: "inLoadView demo_video_loaded" "isLoaded demo_video_loaded"
    "resource demo_video_loaded = (True, False, False, Some ''/videos/a.mp4'')"
    by (simp_all add: demo_video_loaded_eq resource_def)
  have "isLoaded demo_video_loaded \<or> isLoading demo_video_loaded"
    using l(2) by simp
  moreover have "(400::nat) < 1000" "(999::nat) < 1000"
    by simp_all
  ultimately show ?thesis
    using flip_cancels_unload [OF demo_video_reachable(3) l(1), of 400 999 100]
      l demo_video_reachable(3)
    by (simp only: simp_thms)
qed

subsection \<open>Playing only in the play window\<close>

text \<open>
  A video that is playing in the play window gets a media error; the autoplay effect returns
  early on \<open>isFailed\<close>, so when the video leaves the play window it is not paused: it is
  playing and not in the play window.
\<close>

theorem error_keeps_playing_outside:
  "reachable (step demo_video_broken (SetInPlayView False 0))
   \<and> isPlaying (step demo_video_broken (SetInPlayView False 0))
   \<and> isLoaded (step demo_video_broken (SetInPlayView False 0))
   \<and> \<not> el_paused (step demo_video_broken (SetInPlayView False 0))
   \<and> \<not> inPlayView (step demo_video_broken (SetInPlayView False 0))"
proof -
  have "reachable (step demo_video_broken (SetInPlayView False 0))"
    using demo_video_reachable(7) by (rule reachable_step) simp
  then show ?thesis
    by (simp add: demo_video_broken_eq video_eval)
qed

text \<open>
  C9, as the code has it. In every reachable state: a video that is playing, loaded and not
  failed is in the play window; a click on a video that is not loaded changes nothing; and
  when a playing, loaded, not failed video leaves the play window, it is paused
  (\<open>isPlaying\<close> false and the element paused) with its load flags and source unchanged.
\<close>

theorem playing_in_play_window:
  assumes "reachable s"
  shows "(isPlaying s \<and> isLoaded s \<and> \<not> isFailed s \<longrightarrow> inPlayView s)
    \<and> (\<not> isLoaded s \<longrightarrow> step s Click = s)
    \<and> (isPlaying s \<and> isLoaded s \<and> \<not> isFailed s \<longrightarrow>
          (\<forall>ratio. \<not> isPlaying (step s (SetInPlayView False ratio))
             \<and> el_paused (step s (SetInPlayView False ratio))
             \<and> resource (step s (SetInPlayView False ratio)) = resource s))"
proof -
  have inv: "video_inv s"
    using assms by (rule reachable_video_inv)
  have "playing_ok s"
    using inv by (rule video_inv_playing)
  then have 1: "isPlaying s \<and> isLoaded s \<and> \<not> isFailed s \<longrightarrow> inPlayView s"
    by (auto simp: playing_ok_def)
  have 2: "\<not> isLoaded s \<longrightarrow> step s Click = s"
    using inv by (simp add: click_not_loaded)
  have 3: "\<not> isPlaying (step s (SetInPlayView False ratio))
      \<and> el_paused (step s (SetInPlayView False ratio))
      \<and> resource (step s (SetInPlayView False ratio)) = resource s"
    if "isPlaying s \<and> isLoaded s \<and> \<not> isFailed s" for ratio
  proof -
    have "step s (SetInPlayView False ratio) =
      (el_pause (s\<lparr>inPlayView := False, intersectionRatio := ratio\<rparr>))
        \<lparr>isPlaying := False,
          deps := (render_of (s\<lparr>inPlayView := False, intersectionRatio := ratio\<rparr>))
                    \<lparr>r_isPlaying := False\<rparr>\<rparr>"
      using inv that by (simp add: leave_play_window)
    then show ?thesis
      by (simp add: resource_def)
  qed
  from 1 2 3 show ?thesis by blast
qed

theorem playing_in_play_window_witness:
  "reachable demo_video_playing \<and> isPlaying demo_video_playing \<and> isLoaded demo_video_playing
   \<and> \<not> isFailed demo_video_playing \<and> inPlayView demo_video_playing
   \<and> \<not> isPlaying (step demo_video_playing (SetInPlayView False 0))
   \<and> el_paused (step demo_video_playing (SetInPlayView False 0))
   \<and> resource (step demo_video_playing (SetInPlayView False 0))
       = (True, False, False, Some ''/videos/a.mp4'')
   \<and> reachable demo_video_loading \<and> \<not> isLoaded demo_video_loading
   \<and> step demo_video_loading Click = demo_video_loading"
proof -
  have p: "isPlaying demo_video_playing" "isLoaded demo_video_playing"
    "\<not> isFailed demo_video_playing"
    "resource demo_video_playing = (True, False, False, Some ''/videos/a.mp4'')"
    by (simp_all add: demo_video_playing_eq resource_def)
  have l: "\<not> isLoaded demo_video_loading"
    by (simp add: demo_video_loading_eq)
  show ?thesis
    using playing_in_play_window [OF demo_video_reachable(6)]
      playing_in_play_window [OF demo_video_reachable(2)]
      p l demo_video_reachable(2,6)
    by (simp only: simp_thms)
qed

end
